theory Spec2Isabelle
  imports Complex_Main "HOL-Library.Sublist" "HOL-Library.AList"
begin

section \<open>Accuracy evaluation of a morphological analyzer (scripts/accuracy/eval.py)\<close>

text \<open>
  The development embeds the evaluation pipeline of \<^verbatim>\<open>eval.py\<close>: the parser of the
  analyzer's apertium output, stem extraction and the transliteration pass, the accuracy
  predicates and their registry, alias normalisation and the scoring loop \<^verbatim>\<open>compare\<close>.

  Python strings are character lists. All delimiters the code looks at are ASCII, so the
  scans below behave the same on code points and on UTF-8 bytes. A Python exception is a
  value of type \<open>error\<close>; a function that can raise returns \<open>error + 'a\<close>.
\<close>

subsection \<open>Exceptions\<close>

datatype error =
    RuntimeError nat nat    \<comment> \<open>\<^verbatim>\<open>Reference count {a} != Predicted count {b}\<close>\<close>
  | IndexError              \<comment> \<open>list index out of range\<close>
  | KeyError string
  | ZeroDivisionError
  | HfstException string    \<comment> \<open>raised by the external lookup only\<close>
  | FileNotFoundError string

text \<open>\<^verbatim>\<open>xs[0]\<close>\<close>

definition index0 :: "'a list \<Rightarrow> error + 'a" where
  "index0 xs = (case xs of [] \<Rightarrow> Inl IndexError | x # _ \<Rightarrow> Inr x)"

subsection \<open>String operations of the Python library\<close>

text \<open>
  \<^verbatim>\<open>s.replace(old, new)\<close>: every non-overlapping occurrence of \<open>old\<close>, found from the
  left, is replaced. With an empty \<open>old\<close> Python inserts \<open>new\<close> before every character and
  at the end.
\<close>

function str_replace :: "string \<Rightarrow> string \<Rightarrow> string \<Rightarrow> string" where
  "str_replace old new s =
     (if old = [] then new @ concat (map (\<lambda>c. c # new) s)
      else if s = [] then []
      else if prefix old s then new @ str_replace old new (drop (length old) s)
      else hd s # str_replace old new (tl s))"
  by pat_completeness auto
termination
  by (relation "measure (\<lambda>(old, new, s). length s)") auto

declare str_replace.simps [simp del]

text \<open>\<^verbatim>\<open>s.split(sep)\<close> for a one-character separator; the result is never empty.\<close>

fun str_split :: "char \<Rightarrow> string \<Rightarrow> string list" where
  "str_split sep [] = [[]]"
| "str_split sep (c # cs) =
     (if c = sep then [] # str_split sep cs
      else (case str_split sep cs of [] \<Rightarrow> [[c]] | w # ws \<Rightarrow> (c # w) # ws))"

text \<open>\<^verbatim>\<open>sep.join(xs)\<close>\<close>

fun str_join :: "string \<Rightarrow> string list \<Rightarrow> string" where
  "str_join sep [] = []"
| "str_join sep [x] = x"
| "str_join sep (x # y # ys) = x @ sep @ str_join sep (y # ys)"

subsection \<open>Regular expressions\<close>

text \<open>
  A pattern is given by its anchored matcher: applied to the text that starts at the
  current position it returns the reported string (the group, or the whole match when the
  pattern has no group) and the length of the match. \<^verbatim>\<open>re.findall\<close> and
  \<^verbatim>\<open>re.finditer\<close> scan from the left, try the pattern at every position, and resume
  after the end of a match; the counter is the number of characters of the last match
  still to be passed over. No pattern of the program matches the empty string.
\<close>

type_synonym pattern = "string \<Rightarrow> (string \<times> nat) option"

fun findall_from :: "pattern \<Rightarrow> nat \<Rightarrow> string \<Rightarrow> string list" where
  "findall_from p k [] = []"
| "findall_from p (Suc k) (c # cs) = findall_from p k cs"
| "findall_from p 0 (c # cs) =
     (case p (c # cs) of
        Some (g, n) \<Rightarrow> g # findall_from p (n - 1) cs
      | None \<Rightarrow> findall_from p 0 cs)"

definition findall :: "pattern \<Rightarrow> string \<Rightarrow> string list" where
  "findall p s = findall_from p 0 s"

definition nondelim :: "char \<Rightarrow> bool" where
  "nondelim c = (c \<noteq> CHR ''<'' \<and> c \<noteq> CHR ''>'')"

text \<open>
  \<^verbatim>\<open>>?([^<>]+)<\<close>. The classes exclude the character that must follow them, so the
  greedy runs are the only way to match: a shorter run is followed by a character of
  the class. Skipping the optional \<^verbatim>\<open>>\<close> is of no use either, the group cannot
  start with it.
\<close>

definition stem_pattern :: pattern where
  "stem_pattern s =
     (let k = (if take 1 s = ''>'' then 1 else 0);
          g = takeWhile nondelim (drop k s)
      in if g \<noteq> [] \<and> take 1 (dropWhile nondelim (drop k s)) = ''<''
         then Some (g, k + length g + 1) else None)"

text \<open>\<^verbatim>\<open>[^<>\n]+<([^<>]+)>\<close>\<close>

definition pos_pattern :: pattern where
  "pos_pattern s =
     (let h = takeWhile (\<lambda>c. nondelim c \<and> c \<noteq> CHR 0x0A) s;
          r = drop (length h) s;
          g = takeWhile nondelim (drop 1 r)
      in if h \<noteq> [] \<and> take 1 r = ''<'' \<and> g \<noteq> [] \<and>
            take 1 (dropWhile nondelim (drop 1 r)) = ''>''
         then Some (g, length h + length g + 2) else None)"

text \<open>\<^verbatim>\<open><[^<>]+>\<close>, without a group: the whole match is reported.\<close>

definition tag_pattern :: pattern where
  "tag_pattern s =
     (let g = takeWhile nondelim (drop 1 s)
      in if take 1 s = ''<'' \<and> g \<noteq> [] \<and> take 1 (dropWhile nondelim (drop 1 s)) = ''>''
         then Some (''<'' @ g @ ''>'', length g + 2) else None)"

text \<open>\<^verbatim>\<open>\^([^\^\$]+)\$\<close>\<close>

definition inner_char :: "char \<Rightarrow> bool" where
  "inner_char c = (c \<noteq> CHR ''^'' \<and> c \<noteq> CHR ''$'')"

definition apertium_pattern :: pattern where
  "apertium_pattern s =
     (let g = takeWhile inner_char (drop 1 s)
      in if take 1 s = ''^'' \<and> g \<noteq> [] \<and> take 1 (dropWhile inner_char (drop 1 s)) = ''$''
         then Some (g, length g + 2) else None)"

subsection \<open>The analyzer's output\<close>

record ParsedItem =
  input_str :: string
  out_variants :: "string list"

definition variants :: "ParsedItem \<Rightarrow> string" where
  "variants it = str_join ''/'' (out_variants it)"

text \<open>
  \<^verbatim>\<open>input_str, *output_variants = apertium.split('/')\<close>: the split is never empty, so
  the unpacking cannot fail.
\<close>

definition unpack_item :: "string \<Rightarrow> ParsedItem" where
  "unpack_item apertium =
     (let parts = str_split CHR ''/'' apertium
      in \<lparr>input_str = hd parts, out_variants = tl parts\<rparr>)"

definition parse_apertium :: "string \<Rightarrow> ParsedItem list" where
  "parse_apertium stdout = map unpack_item (findall apertium_pattern stdout)"

text \<open>
  The external \<^verbatim>\<open>hfst-lookup\<close> process behind \<^verbatim>\<open>hfst_lookup(hfst, input_strings)\<close>: a
  function from the submitted batch to the parsed answer or to the exception raised
  (missing file, non-zero exit status).
\<close>

type_synonym lookup = "string list \<Rightarrow> error + ParsedItem list"

subsection \<open>Stem transliteration\<close>

definition get_stem :: "string \<Rightarrow> error + string" where
  "get_stem tagged = index0 (findall stem_pattern tagged)"

text \<open>\<^verbatim>\<open>'*' in s\<close>\<close>

definition unknown_marker :: "string \<Rightarrow> bool" where
  "unknown_marker s = (CHR ''*'' \<in> set s)"

text \<open>
  \<^verbatim>\<open>cyr2lat\<close> is a dictionary: an association list with distinct keys in insertion
  order, where storing under a present key keeps the key's place.
\<close>

type_synonym cyr2lat = "(string \<times> string list) list"

text \<open>The first loop of \<^verbatim>\<open>make_latin\<close>: its inner loop over the variants, and the loop over the items.\<close>

fun gather_variants :: "string list \<Rightarrow> cyr2lat \<Rightarrow> error + cyr2lat" where
  "gather_variants [] d = Inr d"
| "gather_variants (var # vars) d =
     (case get_stem var of
        Inl e \<Rightarrow> Inl e
      | Inr stem \<Rightarrow> gather_variants vars (AList.update stem [] d))"

fun gather_stems :: "ParsedItem list \<Rightarrow> cyr2lat \<Rightarrow> error + cyr2lat" where
  "gather_stems [] d = Inr d"
| "gather_stems (it # items) d =
     (case out_variants it of
        [] \<Rightarrow> Inl IndexError
      | v0 # _ \<Rightarrow>
          if unknown_marker v0 then gather_stems items d
          else (case gather_variants (out_variants it) d of
                  Inl e \<Rightarrow> Inl e
                | Inr d' \<Rightarrow> gather_stems items d'))"

text \<open>The second loop stores the answers of the transducer.\<close>

fun store_translits :: "ParsedItem list \<Rightarrow> cyr2lat \<Rightarrow> cyr2lat" where
  "store_translits [] d = d"
| "store_translits (translit # ts) d =
     store_translits ts (AList.update (input_str translit) (out_variants translit) d)"

text \<open>The third loop: the new variants of one item, and the loop over the items.\<close>

fun latin_variants :: "cyr2lat \<Rightarrow> string list \<Rightarrow> error + string list" where
  "latin_variants d [] = Inr []"
| "latin_variants d (var # vars) =
     (case get_stem var of
        Inl e \<Rightarrow> Inl e
      | Inr stem \<Rightarrow>
          (case map_of d stem of
             None \<Rightarrow> Inl (KeyError stem)
           | Some lat_stems \<Rightarrow>
               (case latin_variants d vars of
                  Inl e \<Rightarrow> Inl e
                | Inr new_variants \<Rightarrow>
                    Inr (map (\<lambda>lat_stem. str_replace stem lat_stem var) lat_stems
                         @ new_variants))))"

fun replace_stems :: "cyr2lat \<Rightarrow> ParsedItem list \<Rightarrow> error + ParsedItem list" where
  "replace_stems d [] = Inr []"
| "replace_stems d (it # items) =
     (case out_variants it of
        [] \<Rightarrow> Inl IndexError
      | v0 # _ \<Rightarrow>
          (case (if unknown_marker v0 then Inr it
                 else (case latin_variants d (out_variants it) of
                         Inl e \<Rightarrow> Inl e
                       | Inr new_variants \<Rightarrow> Inr (it\<lparr>out_variants := new_variants\<rparr>))) of
             Inl e \<Rightarrow> Inl e
           | Inr it' \<Rightarrow>
               (case replace_stems d items of
                  Inl e \<Rightarrow> Inl e
                | Inr items' \<Rightarrow> Inr (it' # items'))))"

text \<open>
  \<^verbatim>\<open>make_latin\<close> rewrites the items in place; the model returns the rewritten list, and
  with it the batches that were submitted to the transducer, in order. The items of a run
  are distinct objects (the parser creates them), so rewriting one does not change
  another.
\<close>

definition make_latin :: "ParsedItem list \<Rightarrow> lookup \<Rightarrow> string list list \<times> (error + ParsedItem list)" where
  "make_latin items hfst_lookup =
     (case gather_stems items [] of
        Inl e \<Rightarrow> ([], Inl e)
      | Inr cyr2lat \<Rightarrow>
          (case hfst_lookup (map fst cyr2lat) of
             Inl e \<Rightarrow> ([map fst cyr2lat], Inl e)
           | Inr translits \<Rightarrow>
               ([map fst cyr2lat], replace_stems (store_translits translits cyr2lat) items)))"

subsection \<open>Accuracy functions\<close>

type_synonym acc_func = "string \<Rightarrow> string \<Rightarrow> error + bool"

definition match_exact :: acc_func where
  "match_exact tagged1 tagged2 = Inr (tagged1 = tagged2)"

definition match_stem :: acc_func where
  "match_stem tagged1 tagged2 =
     (case get_stem tagged1 of
        Inl e \<Rightarrow> Inl e
      | Inr stem1 \<Rightarrow>
          (case get_stem tagged2 of
             Inl e \<Rightarrow> Inl e
           | Inr stem2 \<Rightarrow> Inr (stem1 = stem2)))"

definition match_pos :: acc_func where
  "match_pos tagged1 tagged2 =
     (case index0 (findall pos_pattern tagged1) of
        Inl e \<Rightarrow> Inl e
      | Inr pos1 \<Rightarrow>
          (case index0 (findall pos_pattern tagged2) of
             Inl e \<Rightarrow> Inl e
           | Inr pos2 \<Rightarrow> Inr (pos1 = pos2)))"

text \<open>\<^verbatim>\<open>and\<close> does not evaluate its right operand when the left one is false.\<close>

definition match_stem_and_pos :: acc_func where
  "match_stem_and_pos tagged1 tagged2 =
     (case match_stem tagged1 tagged2 of
        Inl e \<Rightarrow> Inl e
      | Inr b \<Rightarrow> if b then match_pos tagged1 tagged2 else Inr False)"

definition match_unordered :: acc_func where
  "match_unordered tagged1 tagged2 =
     (let tags1 = set (findall tag_pattern tagged1);
          tags2 = set (findall tag_pattern tagged2)
      in case match_stem tagged1 tagged2 of
           Inl e \<Rightarrow> Inl e
         | Inr b \<Rightarrow> Inr (b \<and> tags1 = tags2))"

text \<open>
  The registry is a dictionary from names to predicates; its items are listed in
  insertion order. Iterating over the keys and looking each one up is iterating over the
  items.
\<close>

type_synonym AccFuncsMapping = "(string \<times> acc_func) list"

definition accuracy_funcs :: AccFuncsMapping where
  "accuracy_funcs =
     [(''exact_match'', match_exact),
      (''stem_match'', match_stem),
      (''pos_match'', match_pos),
      (''stem_and_pos_match'', match_stem_and_pos),
      (''unordered_tags_match'', match_unordered)]"

subsection \<open>Output\<close>

text \<open>
  A row appended to a file of the details directory. \<^verbatim>\<open>log_details\<close> writes nothing
  without a directory. Functions that log return the rows they wrote, in order.
\<close>

record detail =
  d_dir :: string
  d_file :: string
  d_wordform :: string
  d_reference :: string
  d_real_output :: string
  d_result :: string

definition log_details ::
  "string option \<Rightarrow> string \<Rightarrow> string \<Rightarrow> string \<Rightarrow> string \<Rightarrow> string \<Rightarrow> detail list" where
  "log_details dir out_file wordform reference real_output result =
     (case dir of
        None \<Rightarrow> []
      | Some d \<Rightarrow>
          [\<lparr>d_dir = d,
            d_file = (if suffix ''.csv'' out_file then out_file else out_file @ ''.csv''),
            d_wordform = wordform, d_reference = reference,
            d_real_output = real_output, d_result = result\<rparr>])"

subsection \<open>Evaluation\<close>

definition tag_aliases :: "(string \<times> string) list" where
  "tag_aliases = [(''<lat>'', ''<dat>''), (''<o>'', ''<obl>'')]"

text \<open>\<^verbatim>\<open>replace_aliases\<close> rewrites the list in place; the model returns the rewritten list.\<close>

definition replace_aliases :: "string list \<Rightarrow> string list" where
  "replace_aliases tagged =
     map (\<lambda>t. fold (\<lambda>(old, new) t. str_replace old new t) tag_aliases t) tagged"

text \<open>
  The counters \<^verbatim>\<open>{'correct': 0, 'recognized': 0}\<close> of one metric, and the entry of the
  returned dictionary after the last loop has added \<^verbatim>\<open>'acc'\<close>. Python's \<^verbatim>\<open>/\<close> on two
  integers is modelled by the exact quotient.
\<close>

record counts =
  correct :: nat
  recognized_m :: nat

record metric_result = counts +
  acc :: rat

record run_result =
  total :: nat
  recognized :: nat
  accuracy :: "(string \<times> metric_result) list"

type_synonym acc_results = "(string \<times> counts) list"

text \<open>\<^verbatim>\<open>acc_results[acc_type][field] += 1\<close>\<close>

definition increment :: "string \<Rightarrow> (counts \<Rightarrow> counts) \<Rightarrow> acc_results \<Rightarrow> error + acc_results" where
  "increment acc_type f acc_results =
     (case map_of acc_results acc_type of
        None \<Rightarrow> Inl (KeyError acc_type)
      | Some c \<Rightarrow> Inr (AList.update acc_type (f c) acc_results))"

text \<open>
  A \<^verbatim>\<open>for\<close> loop whose body logs, may raise and updates the loop's variables: the
  rows written before an exception stay written.
\<close>

type_synonym 's logged = "detail list \<times> (error + 's)"

fun for_each :: "('x \<Rightarrow> 's \<Rightarrow> 's logged) \<Rightarrow> 'x list \<Rightarrow> 's \<Rightarrow> 's logged" where
  "for_each body [] s = ([], Inr s)"
| "for_each body (x # xs) s =
     (case body x s of
        (rows, Inl e) \<Rightarrow> (rows, Inl e)
      | (rows, Inr s') \<Rightarrow>
          (case for_each body xs s' of (rows', r) \<Rightarrow> (rows @ rows', r)))"

text \<open>
  \<^verbatim>\<open>for pred_var in pred.out_variants: if acc_funcs[acc_type](ref, pred_var): ...; break\<close>:
  whether the loop was left at a matching variant.
\<close>

fun first_match :: "acc_func \<Rightarrow> string \<Rightarrow> string list \<Rightarrow> error + bool" where
  "first_match f ref [] = Inr False"
| "first_match f ref (pred_var # vars) =
     (case f ref pred_var of
        Inl e \<Rightarrow> Inl e
      | Inr b \<Rightarrow> if b then Inr True else first_match f ref vars)"

text \<open>
  The body of the loop over the metrics. Its variables are \<^verbatim>\<open>is_correct\<close>, which is
  set to false once per item, before this loop, and \<^verbatim>\<open>acc_results\<close>.
\<close>

definition score_metric ::
  "string option \<Rightarrow> string \<Rightarrow> ParsedItem \<Rightarrow> string \<times> acc_func \<Rightarrow>
   bool \<times> acc_results \<Rightarrow> (bool \<times> acc_results) logged" where
  "score_metric details_dir ref pred m st =
     (case m of (acc_type, f) \<Rightarrow>
      case st of (is_correct, acc_results) \<Rightarrow>
      case increment acc_type (\<lambda>c. c\<lparr>recognized_m := recognized_m c + 1\<rparr>) acc_results of
        Inl e \<Rightarrow> ([], Inl e)
      | Inr acc_results1 \<Rightarrow>
          (case first_match f ref (out_variants pred) of
             Inl e \<Rightarrow> ([], Inl e)
           | Inr found \<Rightarrow>
               if found then
                 (case increment acc_type (\<lambda>c. c\<lparr>correct := correct c + 1\<rparr>) acc_results1 of
                    Inl e \<Rightarrow> ([], Inl e)
                  | Inr acc_results2 \<Rightarrow>
                      (log_details details_dir acc_type (input_str pred) ref (variants pred)
                         ''CORRECT'',
                       Inr (True, acc_results2)))
               else
                 ((if \<not> is_correct
                   then log_details details_dir acc_type (input_str pred) ref (variants pred)
                          ''FAIL''
                   else []),
                  Inr (is_correct, acc_results1))))"

text \<open>The body of the loop over the paired items; its variables are \<^verbatim>\<open>recognized\<close> (here \<open>n_recognized\<close>) and \<^verbatim>\<open>acc_results\<close>.\<close>

definition score_item ::
  "string option \<Rightarrow> AccFuncsMapping \<Rightarrow> string \<times> ParsedItem \<Rightarrow>
   nat \<times> acc_results \<Rightarrow> (nat \<times> acc_results) logged" where
  "score_item details_dir acc_funcs rp st =
     (case rp of (ref, pred) \<Rightarrow>
      case st of (n_recognized, acc_results) \<Rightarrow>
      case out_variants pred of
        [] \<Rightarrow> ([], Inl IndexError)
      | v0 # _ \<Rightarrow>
          if unknown_marker v0 then
            (log_details details_dir ''unknown'' (input_str pred) ref (variants pred) ''UNKNOWN'',
             Inr (n_recognized, acc_results))
          else
            (case for_each (score_metric details_dir ref pred) acc_funcs (False, acc_results) of
               (rows, Inl e) \<Rightarrow> (rows, Inl e)
             | (rows, Inr (_, acc_results')) \<Rightarrow> (rows, Inr (n_recognized + 1, acc_results'))))"

text \<open>\<^verbatim>\<open>a / b\<close>\<close>

definition true_div :: "nat \<Rightarrow> nat \<Rightarrow> error + rat" where
  "true_div a b = (if b = 0 then Inl ZeroDivisionError else Inr (of_nat a / of_nat b))"

text \<open>The last loop of \<^verbatim>\<open>compare\<close>: every metric's entry gets its \<^verbatim>\<open>'acc'\<close>.\<close>

fun fractional :: "string list \<Rightarrow> acc_results \<Rightarrow> error + (string \<times> metric_result) list" where
  "fractional [] acc_results = Inr []"
| "fractional (acc_type # ks) acc_results =
     (case map_of acc_results acc_type of
        None \<Rightarrow> Inl (KeyError acc_type)
      | Some c \<Rightarrow>
          (case (if recognized_m c = 0 then Inr 0 else true_div (correct c) (recognized_m c)) of
             Inl e \<Rightarrow> Inl e
           | Inr a \<Rightarrow>
               (case fractional ks acc_results of
                  Inl e \<Rightarrow> Inl e
                | Inr rs \<Rightarrow>
                    Inr ((acc_type, \<lparr>correct = correct c, recognized_m = recognized_m c, acc = a\<rparr>)
                         # rs))))"

definition compare ::
  "string list \<Rightarrow> ParsedItem list \<Rightarrow> AccFuncsMapping \<Rightarrow> string option \<Rightarrow> run_result logged" where
  "compare reference predicted acc_funcs details_dir =
     (if length reference \<noteq> length predicted
      then ([], Inl (RuntimeError (length reference) (length predicted)))
      else
        (case for_each (score_item details_dir acc_funcs) (zip reference predicted)
                (0, map (\<lambda>k. (k, \<lparr>correct = 0, recognized_m = 0\<rparr>)) (map fst acc_funcs)) of
           (rows, Inl e) \<Rightarrow> (rows, Inl e)
         | (rows, Inr (n_recognized, acc_results)) \<Rightarrow>
             (case fractional (map fst acc_funcs) acc_results of
                Inl e \<Rightarrow> (rows, Inl e)
              | Inr acc_results' \<Rightarrow>
                  (rows,
                   Inr \<lparr>total = length reference, recognized = n_recognized,
                        accuracy = acc_results'\<rparr>))))"

subsection \<open>Notions used in the statements\<close>

text \<open>
  The test \<^verbatim>\<open>'*' in it.out_variants[0]\<close> of \<^verbatim>\<open>compare\<close> and \<^verbatim>\<open>make_latin\<close>, for an
  item that has a first variant (without one the test raises).
\<close>

definition is_unknown :: "ParsedItem \<Rightarrow> bool" where
  "is_unknown it = (case out_variants it of [] \<Rightarrow> False | v0 # _ \<Rightarrow> unknown_marker v0)"

text \<open>A transducer for the examples: it answers every stem with the stem followed by \<^verbatim>\<open>1\<close>.\<close>

definition sample_lookup :: lookup where
  "sample_lookup batch = Inr (map (\<lambda>s. \<lparr>input_str = s, out_variants = [s @ ''1'']\<rparr>) batch)"

text \<open>A transducer for the examples whose process exits with a non-zero status.\<close>

definition failing_lookup :: lookup where
  "failing_lookup batch = Inl (HfstException ''hfst-lookup'')"

text \<open>No metric's \<^verbatim>\<open>correct\<close> exceeds its \<^verbatim>\<open>recognized\<close>.\<close>

definition bounded :: "acc_results \<Rightarrow> bool" where
  "bounded d = (\<forall>k c. map_of d k = Some c \<longrightarrow> correct c \<le> recognized_m c)"

section \<open>Properties\<close>

subsection \<open>Substring replacement of tags\<close>

text \<open>
  Both aliases and both canonical spellings are tags: they start with \<^verbatim>\<open><\<close> and do not
  contain it again. Replacing such a tag by such a tag creates no new occurrence of a tag
  of this shape, so one pass leaves nothing to rewrite, and two replacements whose
  spellings diverge can be swapped.
\<close>

lemma str_replace_Nil: "old \<noteq> [] \<Longrightarrow> str_replace old new [] = []"
  by (simp add: str_replace.simps)

lemma str_replace_skip:
  "old \<noteq> [] \<Longrightarrow> \<not> prefix old (c # s) \<Longrightarrow> str_replace old new (c # s) = c # str_replace old new s"
  by (subst str_replace.simps) simp

lemma str_replace_hit:
  "old \<noteq> [] \<Longrightarrow> str_replace old new (old @ s) = new @ str_replace old new s"
  by (subst str_replace.simps) simp

lemma tag_replace_hit:
  "str_replace (a # x) new (a # x @ s) = new @ str_replace (a # x) new s"
  using str_replace_hit [of "a # x" new s] by simp

lemma tag_replace_other:
  "c \<noteq> a \<Longrightarrow> str_replace (a # x) new (c # s) = c # str_replace (a # x) new s"
  by (rule str_replace_skip) auto

lemma tag_replace_word:
  "a \<notin> set w \<Longrightarrow> str_replace (a # x) new (w @ s) = w @ str_replace (a # x) new s"
  by (induction w) (auto simp: tag_replace_other)

lemma tag_replace_miss:
  "\<not> prefix x s \<Longrightarrow> str_replace (a # x) new (c # s) = c # str_replace (a # x) new s"
  by (rule str_replace_skip) auto

lemma tag_replace_prefix:
  "a \<notin> set u \<Longrightarrow> prefix u (str_replace (a # x) (a # y) s) \<Longrightarrow> prefix u s"
proof (induction u arbitrary: s)
  case Nil
  then show ?case by simp
next
  case (Cons b u)
  show ?case
  proof (cases s)
    case Nil
    with Cons.prems show ?thesis by (simp add: str_replace_Nil)
  next
    case c: (Cons c cs)
    show ?thesis
    proof (cases "c = a \<and> prefix x cs")
      case True
      then obtain t where "s = a # x @ t" using c by (auto simp: prefix_def)
      then have "str_replace (a # x) (a # y) s = (a # y) @ str_replace (a # x) (a # y) t"
        by (simp only: tag_replace_hit)
      with Cons.prems show ?thesis by auto
    next
      case False
      then have "str_replace (a # x) (a # y) s = c # str_replace (a # x) (a # y) cs"
        unfolding c by (intro str_replace_skip) auto
      with Cons.prems Cons.IH [of cs] c show ?thesis by auto
    qed
  qed
qed


lemma tag_replace_idem:
  assumes "a \<notin> set x" "a \<notin> set y" "\<And>t. \<not> prefix x (y @ t)"
  shows "str_replace (a # x) (a # y) (str_replace (a # x) (a # y) s) = str_replace (a # x) (a # y) s"
proof (induction s rule: length_induct)
  case (1 s)
  let ?R = "str_replace (a # x) (a # y)"
  show ?case
  proof (cases s)
    case Nil
    then show ?thesis by (simp add: str_replace_Nil)
  next
    case c: (Cons c cs)
    show ?thesis
    proof (cases "c = a \<and> prefix x cs")
      case True
      then obtain t where t: "s = a # x @ t" using c by (auto simp: prefix_def)
      then have len: "length t < length s" by simp
      have "?R s = a # y @ ?R t"
        unfolding t by (simp only: tag_replace_hit) simp
      moreover have "?R (a # y @ ?R t) = a # ?R (y @ ?R t)"
        by (rule tag_replace_miss) (rule assms(3))
      moreover have "?R (y @ ?R t) = y @ ?R (?R t)"
        by (rule tag_replace_word) (rule assms(2))
      moreover have "?R (?R t) = ?R t" using 1 len by blast
      ultimately show ?thesis by simp
    next
      case False
      have eq: "?R s = c # ?R cs" unfolding c using False by (intro str_replace_skip) auto
      have "\<not> (c = a \<and> prefix x (?R cs))" using False tag_replace_prefix [OF assms(1)] by blast
      then have "?R (c # ?R cs) = c # ?R (?R cs)" by (intro str_replace_skip) auto
      moreover have "?R (?R cs) = ?R cs" using 1 c by simp
      ultimately show ?thesis using eq by simp
    qed
  qed
qed

lemma tag_replace_commute:
  assumes "a \<notin> set x1" "a \<notin> set y1" "a \<notin> set x2" "a \<notin> set y2"
    and "\<And>t. \<not> prefix x2 (x1 @ t)" "\<And>t. \<not> prefix x2 (y1 @ t)"
    and "\<And>t. \<not> prefix x1 (x2 @ t)" "\<And>t. \<not> prefix x1 (y2 @ t)"
  shows "str_replace (a # x1) (a # y1) (str_replace (a # x2) (a # y2) s)
       = str_replace (a # x2) (a # y2) (str_replace (a # x1) (a # y1) s)"
proof (induction s rule: length_induct)
  case (1 s)
  let ?R1 = "str_replace (a # x1) (a # y1)"
  let ?R2 = "str_replace (a # x2) (a # y2)"
  show ?case
  proof (cases s)
    case Nil
    then show ?thesis by (simp add: str_replace_Nil)
  next
    case c: (Cons c cs)
    have IH: "?R1 (?R2 cs) = ?R2 (?R1 cs)" using 1 c by simp
    consider (one) "c = a" "prefix x1 cs" | (two) "c = a" "prefix x2 cs"
      | (none) "\<not> (c = a \<and> prefix x1 cs)" "\<not> (c = a \<and> prefix x2 cs)" by blast
    then show ?thesis
    proof cases
      case one
      then obtain t where t: "s = a # x1 @ t" using c by (auto simp: prefix_def)
      have IHt: "?R1 (?R2 t) = ?R2 (?R1 t)" using 1 t by simp
      have "?R1 s = a # y1 @ ?R1 t" unfolding t by (simp only: tag_replace_hit) simp
      moreover have "?R2 (a # y1 @ ?R1 t) = a # y1 @ ?R2 (?R1 t)"
        using assms(6) [of "?R1 t"] assms(2) by (simp add: tag_replace_miss tag_replace_word)
      moreover have "?R2 s = a # x1 @ ?R2 t"
        unfolding t using assms(5) [of t] assms(1) by (simp add: tag_replace_miss tag_replace_word)
      moreover have "?R1 (a # x1 @ ?R2 t) = a # y1 @ ?R1 (?R2 t)"
        by (simp only: tag_replace_hit) simp
      ultimately show ?thesis using IHt by simp
    next
      case two
      then obtain t where t: "s = a # x2 @ t" using c by (auto simp: prefix_def)
      have IHt: "?R1 (?R2 t) = ?R2 (?R1 t)" using 1 t by simp
      have "?R2 s = a # y2 @ ?R2 t" unfolding t by (simp only: tag_replace_hit) simp
      moreover have "?R1 (a # y2 @ ?R2 t) = a # y2 @ ?R1 (?R2 t)"
        using assms(8) [of "?R2 t"] assms(4) by (simp add: tag_replace_miss tag_replace_word)
      moreover have "?R1 s = a # x2 @ ?R1 t"
        unfolding t using assms(7) [of t] assms(3) by (simp add: tag_replace_miss tag_replace_word)
      moreover have "?R2 (a # x2 @ ?R1 t) = a # y2 @ ?R2 (?R1 t)"
        by (simp only: tag_replace_hit) simp
      ultimately show ?thesis using IHt by simp
    next
      case none
      have e1: "?R1 s = c # ?R1 cs" unfolding c using none(1) by (intro str_replace_skip) auto
      have e2: "?R2 s = c # ?R2 cs" unfolding c using none(2) by (intro str_replace_skip) auto
      have "\<not> (c = a \<and> prefix x1 (?R2 cs))" using none(1) tag_replace_prefix [OF assms(1)] by blast
      then have f1: "?R1 (c # ?R2 cs) = c # ?R1 (?R2 cs)" by (intro str_replace_skip) auto
      have "\<not> (c = a \<and> prefix x2 (?R1 cs))" using none(2) tag_replace_prefix [OF assms(3)] by blast
      then have f2: "?R2 (c # ?R1 cs) = c # ?R2 (?R1 cs)" by (intro str_replace_skip) auto
      show ?thesis using e1 e2 f1 f2 IH by simp
    qed
  qed
qed

lemma alias_pass_idem:
  "fold (\<lambda>(old, new) t. str_replace old new t) tag_aliases
     (fold (\<lambda>(old, new) t. str_replace old new t) tag_aliases t)
   = fold (\<lambda>(old, new) t. str_replace old new t) tag_aliases t"
proof -
  let ?R1 = "str_replace ''<lat>'' ''<dat>''"
  let ?R2 = "str_replace ''<o>'' ''<obl>''"
  have i1: "?R1 (?R1 u) = ?R1 u" for u by (rule tag_replace_idem) simp_all
  have i2: "?R2 (?R2 u) = ?R2 u" for u by (rule tag_replace_idem) simp_all
  have c: "?R1 (?R2 u) = ?R2 (?R1 u)" for u by (rule tag_replace_commute) simp_all
  have "?R2 (?R1 (?R2 (?R1 t))) = ?R2 (?R1 t)" by (simp only: c i1 i2)
  then show ?thesis by (simp add: tag_aliases_def)
qed

subsection \<open>The scoring loops\<close>

text \<open>
  What a loop keeps, and where an exception of a loop comes from. The keys of
  \<^verbatim>\<open>acc_results\<close> never change, so no lookup in it fails, and the only exceptions of
  \<^verbatim>\<open>compare\<close> are the length check, a missing first variant, and what a metric raises.
\<close>

lemma for_each_invariant:
  assumes "for_each body xs s = (rows, Inr s')" and "I s"
    and "\<And>x t r t'. x \<in> set xs \<Longrightarrow> I t \<Longrightarrow> body x t = (r, Inr t') \<Longrightarrow> I t'"
  shows "I s'"
  using assms
proof (induction xs arbitrary: s rows)
  case Nil
  then show ?case by simp
next
  case (Cons x xs)
  from Cons.prems(1) obtain r t r' where b: "body x s = (r, Inr t)"
    and f: "for_each body xs t = (r', Inr s')"
    by (auto split: prod.splits sum.splits)
  have t: "I t" using Cons.prems(2,3) b by auto
  have step: "\<And>y u r u'. y \<in> set xs \<Longrightarrow> I u \<Longrightarrow> body y u = (r, Inr u') \<Longrightarrow> I u'"
    using Cons.prems(3) by auto
  show ?case by (rule Cons.IH [OF f t step])
qed

lemma for_each_error:
  assumes "for_each body xs s = (rows, Inl e)" and "I s"
    and "\<And>x t r t'. x \<in> set xs \<Longrightarrow> I t \<Longrightarrow> body x t = (r, Inr t') \<Longrightarrow> I t'"
  shows "\<exists>x \<in> set xs. \<exists>t r. I t \<and> body x t = (r, Inl e)"
  using assms
proof (induction xs arbitrary: s rows)
  case Nil
  then show ?case by simp
next
  case (Cons x xs)
  show ?case
  proof (cases "body x s")
    case (Pair r res)
    show ?thesis
    proof (cases res)
      case (Inl e')
      with Pair Cons.prems(1) have "e' = e" by simp
      with Pair Inl Cons.prems(2) show ?thesis by auto
    next
      case (Inr t)
      with Pair Cons.prems(1) obtain r' where f: "for_each body xs t = (r', Inl e)"
        by (auto split: prod.splits)
      have t: "I t" using Cons.prems(2,3) Pair Inr by auto
      have step: "\<And>y u r u'. y \<in> set xs \<Longrightarrow> I u \<Longrightarrow> body y u = (r, Inr u') \<Longrightarrow> I u'"
        using Cons.prems(3) by auto
      have "\<exists>x \<in> set xs. \<exists>t r. I t \<and> body x t = (r, Inl e)"
        by (rule Cons.IH [OF f t step])
      then show ?thesis by auto
    qed
  qed
qed

lemma increment_Inr:
  "increment k f d = Inr d' \<Longrightarrow> \<exists>c. map_of d k = Some c \<and> d' = AList.update k (f c) d"
  by (auto simp: increment_def split: option.splits)

lemma increment_Inl:
  "increment k f d = Inl e \<Longrightarrow> e = KeyError k \<and> k \<notin> set (map fst d)"
  by (auto simp: increment_def map_of_eq_None_iff split: option.splits)

lemma increment_keys:
  "increment k f d = Inr d' \<Longrightarrow> map fst d' = map fst d"
  by (auto simp: increment_def update_keys dest!: map_of_SomeD split: option.splits) force

lemma first_match_error:
  "first_match f ref vars = Inl e \<Longrightarrow> \<exists>v \<in> set vars. f ref v = Inl e"
  by (induction vars) (auto split: sum.splits if_splits)


lemma bounded_update:
  "bounded d \<Longrightarrow> correct c \<le> recognized_m c \<Longrightarrow> bounded (AList.update k c d)"
  by (simp add: bounded_def update_conv')

lemma score_metric_Inr:
  assumes "score_metric dd ref pred (k, f) (b, d) = (rows, Inr (b', d'))"
  shows "map fst d' = map fst d \<and> (bounded d \<longrightarrow> bounded d')"
proof -
  from assms obtain d1 where d1: "increment k (\<lambda>c. c\<lparr>recognized_m := recognized_m c + 1\<rparr>) d = Inr d1"
    by (auto simp: score_metric_def split: sum.splits)
  then obtain c where c: "map_of d k = Some c"
    and d1_eq: "d1 = AList.update k (c\<lparr>recognized_m := recognized_m c + 1\<rparr>) d"
    by (auto dest: increment_Inr)
  have k1: "map fst d1 = map fst d" using d1 by (rule increment_keys)
  have b0: "bounded d \<Longrightarrow> correct c \<le> recognized_m c"
    using c unfolding bounded_def by blast
  have b1: "bounded d \<Longrightarrow> bounded d1"
    unfolding d1_eq using b0 by (intro bounded_update) auto
  from assms d1 obtain found where fm: "first_match f ref (out_variants pred) = Inr found"
    by (auto simp: score_metric_def split: sum.splits)
  show ?thesis
  proof (cases found)
    case False
    with assms d1 fm have "d' = d1" by (simp add: score_metric_def)
    with k1 b1 show ?thesis by simp
  next
    case True
    with assms d1 fm have d2: "increment k (\<lambda>c. c\<lparr>correct := correct c + 1\<rparr>) d1 = Inr d'"
      by (auto simp: score_metric_def split: sum.splits)
    have "map_of d1 k = Some (c\<lparr>recognized_m := recognized_m c + 1\<rparr>)"
      unfolding d1_eq by (simp add: update_conv')
    with d2 have d'_eq: "d' = AList.update k (c\<lparr>recognized_m := recognized_m c + 1, correct := correct c + 1\<rparr>) d1"
      by (auto dest: increment_Inr)
    have "bounded d \<Longrightarrow> bounded d'"
    proof -
      assume bd: "bounded d"
      then have "correct c \<le> recognized_m c" by (rule b0)
      then show "bounded d'" unfolding d'_eq using b1 [OF bd] by (intro bounded_update) auto
    qed
    moreover have "map fst d' = map fst d" using increment_keys [OF d2] k1 by simp
    ultimately show ?thesis by simp
  qed
qed

lemma score_metric_Inl:
  assumes "score_metric dd ref pred (k, f) (b, d) = (rows, Inl e)" and "k \<in> set (map fst d)"
  shows "\<exists>v \<in> set (out_variants pred). f ref v = Inl e"
proof (cases "increment k (\<lambda>c. c\<lparr>recognized_m := recognized_m c + 1\<rparr>) d")
  case (Inl e')
  from increment_Inl [OF Inl] assms(2) show ?thesis by blast
next
  case (Inr d1)
  have k1: "k \<in> set (map fst d1)" using increment_keys [OF Inr] assms(2) by simp
  show ?thesis
  proof (cases "first_match f ref (out_variants pred)")
    case (Inl e')
    with assms(1) Inr have "e' = e" by (simp add: score_metric_def)
    with Inl show ?thesis by (auto dest: first_match_error)
  next
    case found: (Inr found)
    show ?thesis
    proof (cases found)
      case False
      with assms(1) Inr found show ?thesis by (simp add: score_metric_def)
    next
      case True
      with assms(1) Inr found
      have "increment k (\<lambda>c. c\<lparr>correct := correct c + 1\<rparr>) d1 = Inl e"
        by (auto simp: score_metric_def split: sum.splits)
      from increment_Inl [OF this] k1 show ?thesis by blast
    qed
  qed
qed


lemma metric_loop_Inr:
  assumes "for_each (score_metric dd ref pred) funcs (b, d) = (rows, Inr (b', d'))"
  shows "map fst d' = map fst d \<and> (bounded d \<longrightarrow> bounded d')"
proof -
  let ?I = "\<lambda>st. map fst (snd st) = map fst d \<and> (bounded d \<longrightarrow> bounded (snd st))"
  have "?I (b', d')"
  proof (rule for_each_invariant [OF assms, where I = ?I])
    show "?I (b, d)" by simp
  next
    fix x t r t'
    assume "?I t" and "score_metric dd ref pred x t = (r, Inr t')"
    then show "?I t'"
      using score_metric_Inr [of dd ref pred "fst x" "snd x" "fst t" "snd t" r "fst t'" "snd t'"]
      by simp
  qed
  then show ?thesis by simp
qed

lemma metric_loop_Inl:
  assumes "for_each (score_metric dd ref pred) funcs (b, d) = (rows, Inl e)"
    and "fst ` set funcs \<subseteq> set (map fst d)"
  shows "\<exists>kf \<in> set funcs. \<exists>v \<in> set (out_variants pred). snd kf ref v = Inl e"
proof -
  let ?I = "\<lambda>st. map fst (snd st) = map fst d"
  have "\<exists>x \<in> set funcs. \<exists>t r. ?I t \<and> score_metric dd ref pred x t = (r, Inl e)"
  proof (rule for_each_error [OF assms(1), where I = ?I])
    show "?I (b, d)" by simp
  next
    fix x t r t'
    assume "?I t" and "score_metric dd ref pred x t = (r, Inr t')"
    then show "?I t'"
      using score_metric_Inr [of dd ref pred "fst x" "snd x" "fst t" "snd t" r "fst t'" "snd t'"]
      by simp
  qed
  then obtain x t r where x: "x \<in> set funcs" and t: "?I t"
    and e: "score_metric dd ref pred x t = (r, Inl e)" by blast
  have "fst x \<in> set (map fst (snd t))" using x t assms(2) by auto
  then have "\<exists>v \<in> set (out_variants pred). snd x ref v = Inl e"
    using score_metric_Inl [of dd ref pred "fst x" "snd x" "fst t" "snd t" r e] e by simp
  with x show ?thesis by blast
qed

lemma score_item_Inr:
  assumes "score_item dd funcs (ref, pred) (n, d) = (rows, Inr (n', d'))"
  shows "map fst d' = map fst d \<and> (bounded d \<longrightarrow> bounded d') \<and> out_variants pred \<noteq> [] \<and>
         n' = n + (if is_unknown pred then 0 else 1)"
proof (cases "out_variants pred")
  case Nil
  with assms show ?thesis by (simp add: score_item_def)
next
  case (Cons v0 vs)
  show ?thesis
  proof (cases "unknown_marker v0")
    case True
    with assms Cons show ?thesis by (simp add: score_item_def is_unknown_def)
  next
    case False
    with assms Cons obtain b' where
      "for_each (score_metric dd ref pred) funcs (False, d) = (rows, Inr (b', d'))" and "n' = n + 1"
      by (auto simp: score_item_def split: prod.splits sum.splits)
    with metric_loop_Inr [of dd ref pred funcs False d rows b' d'] Cons False
    show ?thesis by (simp add: is_unknown_def)
  qed
qed

lemma score_item_Inl:
  assumes "score_item dd funcs (ref, pred) (n, d) = (rows, Inl e)"
    and "fst ` set funcs \<subseteq> set (map fst d)"
  shows "e = IndexError \<or> (\<exists>kf \<in> set funcs. \<exists>v \<in> set (out_variants pred). snd kf ref v = Inl e)"
proof (cases "out_variants pred")
  case Nil
  with assms show ?thesis by (simp add: score_item_def)
next
  case (Cons v0 vs)
  show ?thesis
  proof (cases "unknown_marker v0")
    case True
    with assms Cons show ?thesis by (simp add: score_item_def)
  next
    case False
    with assms(1) Cons have
      "for_each (score_metric dd ref pred) funcs (False, d) = (rows, Inl e)"
      by (auto simp: score_item_def split: prod.splits sum.splits)
    from metric_loop_Inl [OF this assms(2)] show ?thesis by simp
  qed
qed

lemma item_loop_Inr:
  assumes "for_each (score_item dd funcs) zs (n, d) = (rows, Inr (n', d'))"
  shows "map fst d' = map fst d \<and> (bounded d \<longrightarrow> bounded d') \<and>
         (\<forall>z \<in> set zs. out_variants (snd z) \<noteq> []) \<and>
         n' = n + length (filter (\<lambda>z. \<not> is_unknown (snd z)) zs)"
  using assms
proof (induction zs arbitrary: n d rows)
  case Nil
  then show ?case by simp
next
  case (Cons z zs)
  from Cons.prems obtain r n1 d1 r' where
    b: "score_item dd funcs z (n, d) = (r, Inr (n1, d1))" and
    f: "for_each (score_item dd funcs) zs (n1, d1) = (r', Inr (n', d'))"
    by (auto split: prod.splits sum.splits)
  from score_item_Inr [of dd funcs "fst z" "snd z" n d r n1 d1] b Cons.IH [OF f]
  show ?case by auto
qed

lemma item_loop_Inl:
  assumes "for_each (score_item dd funcs) zs (n, d) = (rows, Inl e)"
    and "fst ` set funcs \<subseteq> set (map fst d)"
  shows "e = IndexError \<or>
         (\<exists>z \<in> set zs. \<exists>kf \<in> set funcs. \<exists>v \<in> set (out_variants (snd z)). snd kf (fst z) v = Inl e)"
proof -
  let ?I = "\<lambda>st. map fst (snd st) = map fst d"
  have "\<exists>z \<in> set zs. \<exists>t r. ?I t \<and> score_item dd funcs z t = (r, Inl e)"
  proof (rule for_each_error [OF assms(1), where I = ?I])
    show "?I (n, d)" by simp
  next
    fix x t r t'
    assume "?I t" and "score_item dd funcs x t = (r, Inr t')"
    then show "?I t'"
      using score_item_Inr [of dd funcs "fst x" "snd x" "fst t" "snd t" r "fst t'" "snd t'"]
      by simp
  qed
  then obtain z t r where z: "z \<in> set zs" and t: "?I t"
    and e: "score_item dd funcs z t = (r, Inl e)" by blast
  have "fst ` set funcs \<subseteq> set (map fst (snd t))" using t assms(2) by simp
  with score_item_Inl [of dd funcs "fst z" "snd z" "fst t" "snd t" r e] e z
  show ?thesis by auto
qed


lemma fractional_Inr:
  "fractional ks d = Inr rs \<Longrightarrow>
   map fst rs = ks \<and>
   (\<forall>km \<in> set rs. \<exists>c. map_of d (fst km) = Some c \<and>
      correct (snd km) = correct c \<and> recognized_m (snd km) = recognized_m c \<and>
      acc (snd km) = (if recognized_m c = 0 then 0
                      else of_nat (correct c) / of_nat (recognized_m c)))"
proof (induction ks arbitrary: rs)
  case Nil
  then show ?case by simp
next
  case (Cons k ks)
  from Cons.prems obtain c a rs' where c: "map_of d k = Some c"
    and a: "(if recognized_m c = 0 then Inr 0 else true_div (correct c) (recognized_m c)) = Inr a"
    and r: "fractional ks d = Inr rs'"
    and rs: "rs = (k, \<lparr>correct = correct c, recognized_m = recognized_m c, acc = a\<rparr>) # rs'"
    by (auto split: option.splits sum.splits)
  from a have "a = (if recognized_m c = 0 then 0 else of_nat (correct c) / of_nat (recognized_m c))"
    by (auto simp: true_div_def split: if_splits)
  with Cons.IH [OF r] c rs show ?case by simp
qed

lemma fractional_Inl:
  "fractional ks d = Inl e \<Longrightarrow> \<exists>k \<in> set ks. e = KeyError k \<and> k \<notin> set (map fst d)"
proof (induction ks)
  case Nil
  then show ?case by simp
next
  case (Cons k ks)
  show ?case
  proof (cases "map_of d k")
    case None
    with Cons.prems show ?thesis by (auto simp: map_of_eq_None_iff)
  next
    case (Some c)
    have "(if recognized_m c = 0 then Inr 0 else true_div (correct c) (recognized_m c)) \<noteq> Inl e"
      by (simp add: true_div_def)
    with Cons.prems Some have "fractional ks d = Inl e"
      by (auto split: sum.splits if_splits simp: true_div_def)
    with Cons.IH show ?thesis by auto
  qed
qed

lemma bounded_init: "bounded (map (\<lambda>k. (k, \<lparr>correct = 0, recognized_m = 0\<rparr>)) ks)"
  by (auto simp: bounded_def dest!: map_of_SomeD)

lemma length_filter_zip_snd:
  "length xs = length ys \<Longrightarrow>
   length (filter (\<lambda>z. P (snd z)) (zip xs ys)) = length (filter P ys)"
  by (induction xs ys rule: list_induct2) auto

lemma compare_Inr:
  assumes "compare reference predicted funcs dd = (rows, Inr res)"
  shows "length reference = length predicted \<and> run_result.total res = length reference \<and>
         recognized res = length (filter (\<lambda>p. \<not> is_unknown p) predicted) \<and>
         (\<forall>p \<in> set predicted. out_variants p \<noteq> []) \<and>
         map fst (accuracy res) = map fst funcs \<and>
         (\<forall>km \<in> set (accuracy res).
            correct (snd km) \<le> recognized_m (snd km) \<and>
            acc (snd km) = (if recognized_m (snd km) = 0 then 0
                            else of_nat (correct (snd km)) / of_nat (recognized_m (snd km))))"
proof -
  let ?init = "map (\<lambda>k. (k, \<lparr>correct = 0, recognized_m = 0\<rparr>)) (map fst funcs)"
  from assms have len: "length reference = length predicted"
    by (auto simp: compare_def split: if_splits)
  with assms obtain n d where
    loop: "for_each (score_item dd funcs) (zip reference predicted) (0, ?init) = (rows, Inr (n, d))"
    and fr: "fractional (map fst funcs) d = Inr (accuracy res)"
    and tot: "run_result.total res = length reference" and rec: "recognized res = n"
    by (auto simp: compare_def split: prod.splits sum.splits)
  have bi: "bounded ?init" by (rule bounded_init)
  from item_loop_Inr [OF loop] bi have bd: "bounded d"
    and nv: "\<forall>z \<in> set (zip reference predicted). out_variants (snd z) \<noteq> []"
    by blast+
  from item_loop_Inr [OF loop]
  have n: "n = length (filter (\<lambda>z. \<not> is_unknown (snd z)) (zip reference predicted))"
    by simp
  have "set predicted = snd ` set (zip reference predicted)"
    using len by (metis map_snd_zip set_map)
  with nv have nonempty: "\<forall>p \<in> set predicted. out_variants p \<noteq> []" by auto
  have n': "n = length (filter (\<lambda>p. \<not> is_unknown p) predicted)"
    unfolding n using len by (rule length_filter_zip_snd)
  have keys: "map fst (accuracy res) = map fst funcs"
    using fractional_Inr [OF fr] by blast
  have entries: "\<forall>km \<in> set (accuracy res).
            correct (snd km) \<le> recognized_m (snd km) \<and>
            acc (snd km) = (if recognized_m (snd km) = 0 then 0
                            else of_nat (correct (snd km)) / of_nat (recognized_m (snd km)))"
  proof
    fix km
    assume "km \<in> set (accuracy res)"
    with fractional_Inr [OF fr] obtain c where c: "map_of d (fst km) = Some c"
      and eq: "correct (snd km) = correct c" "recognized_m (snd km) = recognized_m c"
        "acc (snd km) = (if recognized_m c = 0 then 0
                         else of_nat (correct c) / of_nat (recognized_m c))"
      by blast
    from bd c have "correct c \<le> recognized_m c" unfolding bounded_def by blast
    with eq show "correct (snd km) \<le> recognized_m (snd km) \<and>
            acc (snd km) = (if recognized_m (snd km) = 0 then 0
                            else of_nat (correct (snd km)) / of_nat (recognized_m (snd km)))"
      by simp
  qed
  from len tot rec n' nonempty keys entries show ?thesis by blast
qed

lemma compare_Inl:
  assumes "compare reference predicted funcs dd = (rows, Inl e)"
  shows "(length reference \<noteq> length predicted \<and> rows = [] \<and>
          e = RuntimeError (length reference) (length predicted)) \<or>
         (length reference = length predicted \<and>
          (e = IndexError \<or> (\<exists>kf \<in> set funcs. \<exists>a b. snd kf a b = Inl e)))"
proof (cases "length reference = length predicted")
  case False
  with assms show ?thesis by (simp add: compare_def)
next
  case True
  let ?init = "map (\<lambda>k. (k, \<lparr>correct = 0, recognized_m = 0\<rparr>)) (map fst funcs)"
  have keys: "fst ` set funcs \<subseteq> set (map fst ?init)" by (simp add: comp_def)
  show ?thesis
  proof (cases "for_each (score_item dd funcs) (zip reference predicted) (0, ?init)")
    case (Pair r res)
    show ?thesis
    proof (cases res)
      case (Inl e')
      with Pair assms True have "e' = e" by (simp add: compare_def)
      with item_loop_Inl [OF _ keys] Pair Inl True show ?thesis by blast
    next
      case (Inr st)
      obtain n d where st: "st = (n, d)" by (cases st)
      from item_loop_Inr [of dd funcs "zip reference predicted" 0 ?init r n d] Pair Inr st
      have k: "map fst d = map fst funcs" by (simp add: comp_def)
      from assms True Pair Inr st have "fractional (map fst funcs) d = Inl e"
        by (auto simp: compare_def split: sum.splits)
      from fractional_Inl [OF this] k show ?thesis by auto
    qed
  qed
qed


lemma index0_error: "index0 xs = Inl e \<Longrightarrow> e = IndexError"
  by (auto simp: index0_def split: list.splits)

lemma match_stem_error: "match_stem a b = Inl e \<Longrightarrow> e = IndexError"
  by (auto simp: match_stem_def get_stem_def dest: index0_error split: sum.splits)

lemma match_pos_error: "match_pos a b = Inl e \<Longrightarrow> e = IndexError"
  by (auto simp: match_pos_def dest: index0_error split: sum.splits)

lemma accuracy_funcs_error:
  assumes "kf \<in> set accuracy_funcs" and "snd kf a b = Inl e"
  shows "e = IndexError"
proof -
  from assms(1) consider "snd kf = match_exact" | "snd kf = match_stem" | "snd kf = match_pos"
    | "snd kf = match_stem_and_pos" | "snd kf = match_unordered"
    by (auto simp: accuracy_funcs_def)
  then show ?thesis
  proof cases
    case 1
    with assms(2) show ?thesis by (simp add: match_exact_def)
  next
    case 2
    with assms(2) show ?thesis by (auto dest: match_stem_error)
  next
    case 3
    with assms(2) show ?thesis by (auto dest: match_pos_error)
  next
    case 4
    with assms(2) show ?thesis
      by (auto simp: match_stem_and_pos_def dest: match_stem_error match_pos_error
               split: sum.splits if_splits)
  next
    case 5
    with assms(2) show ?thesis
      by (auto simp: match_unordered_def Let_def dest: match_stem_error split: sum.splits)
  qed
qed

lemma compare_registry_Inl:
  assumes "compare reference predicted accuracy_funcs dd = (rows, Inl e)"
  shows "(length reference \<noteq> length predicted \<and> rows = [] \<and>
          e = RuntimeError (length reference) (length predicted)) \<or>
         (length reference = length predicted \<and> e = IndexError)"
  using compare_Inl [OF assms] accuracy_funcs_error by blast

lemma length_filter_eq_iff:
  "length (filter P xs) = length xs \<longleftrightarrow> (\<forall>x \<in> set xs. P x)"
proof (induction xs)
  case Nil
  then show ?case by simp
next
  case (Cons x xs)
  have le: "length (filter P xs) \<le> length xs" by simp
  show ?case
  proof (cases "P x")
    case True
    with Cons show ?thesis by simp
  next
    case False
    from le have "length (filter P xs) \<noteq> Suc (length xs)" by linarith
    with False show ?thesis by simp
  qed
qed

subsection \<open>Scanning\<close>

text \<open>
  A match of the stem pattern or of the part-of-speech pattern needs a character other
  than \<^verbatim>\<open><\<close> and \<^verbatim>\<open>>\<close> directly before a \<^verbatim>\<open><\<close>; a text without such a place has no match.
\<close>

lemma findall_from_drop: "findall_from p k s = findall_from p 0 (drop k s)"
proof (induction s arbitrary: k)
  case Nil
  then show ?case by simp
next
  case (Cons c cs)
  show ?case
  proof (cases k)
    case 0
    then show ?thesis by simp
  next
    case (Suc k')
    with Cons [of k'] show ?thesis by simp
  qed
qed

lemma run_then_char:
  assumes "takeWhile P s \<noteq> []" and "take 1 (dropWhile P s) = [c]"
  shows "\<exists>u a v. s = u @ a # c # v \<and> P a"
proof -
  let ?g = "takeWhile P s"
  from assms(2) obtain v where v: "dropWhile P s = c # v"
    by (cases "dropWhile P s") auto
  obtain u a where ua: "?g = u @ [a]" using assms(1) by (metis append_butlast_last_id)
  then have "a \<in> set ?g" by simp
  then have a: "P a" by (auto dest: set_takeWhileD)
  have "?g @ dropWhile P s = s" by (rule takeWhile_dropWhile_id)
  then have "s = (u @ [a]) @ c # v" unfolding v ua by (rule sym)
  then have "s = u @ a # c # v" by simp
  with a show ?thesis by blast
qed

lemma stem_pattern_Some:
  assumes "stem_pattern s = Some r"
  shows "\<exists>u a v. s = u @ a # CHR ''<'' # v \<and> nondelim a"
proof -
  let ?k = "if take 1 s = ''>'' then 1 else 0 :: nat"
  from assms have "takeWhile nondelim (drop ?k s) \<noteq> []"
    and "take 1 (dropWhile nondelim (drop ?k s)) = ''<''"
    by (auto simp: stem_pattern_def Let_def split: if_splits)
  from run_then_char [OF this] obtain u a v where "drop ?k s = u @ a # CHR ''<'' # v" "nondelim a"
    by blast
  then have "s = (take ?k s @ u) @ a # CHR ''<'' # v \<and> nondelim a"
    using append_take_drop_id [of ?k s] by (metis append.assoc)
  then show ?thesis by blast
qed

lemma pos_pattern_Some:
  assumes "pos_pattern s = Some r"
  shows "\<exists>u a v. s = u @ a # CHR ''<'' # v \<and> nondelim a"
proof -
  let ?P = "\<lambda>c. nondelim c \<and> c \<noteq> CHR 0x0A"
  from assms have "takeWhile ?P s \<noteq> []"
    and "take 1 (drop (length (takeWhile ?P s)) s) = ''<''"
    by (auto simp: pos_pattern_def Let_def split: if_splits)
  then have "takeWhile ?P s \<noteq> []" and "take 1 (dropWhile ?P s) = ''<''"
    by (simp_all add: dropWhile_eq_drop)
  from run_then_char [OF this] show ?thesis by blast
qed

lemma findall_none:
  assumes "\<And>t r. p t = Some r \<Longrightarrow> \<exists>u a v. t = u @ a # c # v \<and> P a"
    and "\<And>u a v. s = u @ a # c # v \<Longrightarrow> \<not> P a"
  shows "findall p s = []"
proof -
  have "findall_from p 0 s = []" using assms(2)
  proof (induction s)
    case Nil
    then show ?case by simp
  next
    case (Cons x xs)
    have "p (x # xs) = None"
    proof (cases "p (x # xs)")
      case (Some r)
      from assms(1) [OF this] Cons.prems show ?thesis by blast
    qed simp
    moreover have "findall_from p 0 xs = []"
    proof (rule Cons.IH)
      fix u a v
      assume "xs = u @ a # c # v"
      then have "x # xs = (x # u) @ a # c # v" by simp
      then show "\<not> P a" by (rule Cons.prems)
    qed
    ultimately show ?case by simp
  qed
  then show ?thesis by (simp add: findall_def)
qed

lemma get_stem_stemless:
  assumes "\<And>u a v. tagged = u @ a # CHR ''<'' # v \<Longrightarrow> \<not> nondelim a"
  shows "get_stem tagged = Inl IndexError"
proof -
  have "findall stem_pattern tagged = []"
  proof (rule findall_none [where P = nondelim and c = "CHR ''<''"])
    fix t r
    assume "stem_pattern t = Some r"
    then show "\<exists>u a v. t = u @ a # CHR ''<'' # v \<and> nondelim a" by (rule stem_pattern_Some)
  next
    fix u a v
    assume "tagged = u @ a # CHR ''<'' # v"
    then show "\<not> nondelim a" by (rule assms)
  qed
  then show ?thesis by (simp add: get_stem_def index0_def)
qed

lemma pos_stemless:
  assumes "\<And>u a v. tagged = u @ a # CHR ''<'' # v \<Longrightarrow> \<not> nondelim a"
  shows "index0 (findall pos_pattern tagged) = Inl IndexError"
proof -
  have "findall pos_pattern tagged = []"
  proof (rule findall_none [where P = nondelim and c = "CHR ''<''"])
    fix t r
    assume "pos_pattern t = Some r"
    then show "\<exists>u a v. t = u @ a # CHR ''<'' # v \<and> nondelim a" by (rule pos_pattern_Some)
  next
    fix u a v
    assume "tagged = u @ a # CHR ''<'' # v"
    then show "\<not> nondelim a" by (rule assms)
  qed
  then show ?thesis by (simp add: index0_def)
qed

subsection \<open>The transliteration pass\<close>

text \<open>
  The first loop raises nothing but an \<^verbatim>\<open>IndexError\<close>; when it returns, the keys of
  \<^verbatim>\<open>cyr2lat\<close> are the stems of the variants of the items that are not unknown, each
  once. Unknown items take no part in it, and the third loop hands them back as they
  are.
\<close>

lemma get_stem_error: "get_stem v = Inl e \<Longrightarrow> e = IndexError"
  by (auto simp: get_stem_def dest: index0_error)

lemma gather_variants_error: "gather_variants vars d = Inl e \<Longrightarrow> e = IndexError"
  by (induction vars arbitrary: d) (auto dest: get_stem_error split: sum.splits)

lemma gather_variants_Inr:
  "gather_variants vars d = Inr d' \<Longrightarrow>
   (\<forall>v \<in> set vars. \<exists>s. get_stem v = Inr s) \<and>
   set (map fst d') = set (map fst d) \<union> {s. \<exists>v \<in> set vars. get_stem v = Inr s} \<and>
   (distinct (map fst d) \<longrightarrow> distinct (map fst d'))"
proof (induction vars arbitrary: d)
  case Nil
  then show ?case by simp
next
  case (Cons var vars)
  from Cons.prems obtain stem where st: "get_stem var = Inr stem"
    and g: "gather_variants vars (AList.update stem [] d) = Inr d'"
    by (auto split: sum.splits)
  have k: "set (map fst (AList.update stem [] d)) = insert stem (set (map fst d))"
    using dom_update [of stem "[]" d] by simp
  from Cons.IH [OF g] st k show ?case
    by (auto simp: distinct_update)
qed

lemma gather_variants_total:
  "\<forall>v \<in> set vars. \<exists>s. get_stem v = Inr s \<Longrightarrow> \<exists>d'. gather_variants vars d = Inr d'"
  by (induction vars arbitrary: d) auto

lemma gather_stems_error: "gather_stems items d = Inl e \<Longrightarrow> e = IndexError"
  by (induction items arbitrary: d)
     (auto dest: gather_variants_error get_stem_error split: sum.splits list.splits if_splits)

lemma gather_stems_Inr:
  "gather_stems items d = Inr d' \<Longrightarrow>
   (\<forall>it \<in> set items. out_variants it \<noteq> [] \<and>
      (\<not> is_unknown it \<longrightarrow> (\<forall>v \<in> set (out_variants it). \<exists>s. get_stem v = Inr s))) \<and>
   set (map fst d') = set (map fst d) \<union>
     {s. \<exists>it \<in> set items. \<not> is_unknown it \<and> (\<exists>v \<in> set (out_variants it). get_stem v = Inr s)} \<and>
   (distinct (map fst d) \<longrightarrow> distinct (map fst d'))"
proof (induction items arbitrary: d)
  case Nil
  then show ?case by simp
next
  case (Cons it items)
  from Cons.prems obtain v0 vs where v: "out_variants it = v0 # vs"
    by (auto split: list.splits)
  show ?case
  proof (cases "unknown_marker v0")
    case True
    with v have u: "is_unknown it" by (simp add: is_unknown_def)
    from Cons.prems v True have "gather_stems items d = Inr d'" by simp
    from Cons.IH [OF this] u v show ?thesis by auto
  next
    case False
    with v have u: "\<not> is_unknown it" by (simp add: is_unknown_def)
    from Cons.prems v False obtain d1 where g: "gather_variants (out_variants it) d = Inr d1"
      and r: "gather_stems items d1 = Inr d'"
      by (auto split: sum.splits)
    from gather_variants_Inr [OF g] Cons.IH [OF r] u v show ?thesis by auto
  qed
qed

lemma gather_stems_total:
  "\<forall>it \<in> set items. out_variants it \<noteq> [] \<and>
      (\<not> is_unknown it \<longrightarrow> (\<forall>v \<in> set (out_variants it). \<exists>s. get_stem v = Inr s))
   \<Longrightarrow> \<exists>d'. gather_stems items d = Inr d'"
proof (induction items arbitrary: d)
  case Nil
  then show ?case by simp
next
  case (Cons it items)
  then obtain v0 vs where v: "out_variants it = v0 # vs" by (cases "out_variants it") auto
  show ?case
  proof (cases "unknown_marker v0")
    case True
    with v Cons show ?thesis by simp
  next
    case False
    with v have "\<not> is_unknown it" by (simp add: is_unknown_def)
    with Cons.prems have "\<forall>v \<in> set (out_variants it). \<exists>s. get_stem v = Inr s" by simp
    from gather_variants_total [OF this] obtain d1 where
      "gather_variants (out_variants it) d = Inr d1" by blast
    with v False Cons.IH [of d1] Cons.prems show ?thesis by simp
  qed
qed

lemma gather_stems_filter:
  "gather_stems items d = gather_stems (filter (\<lambda>it. \<not> is_unknown it) items) d"
proof (induction items arbitrary: d)
  case Nil
  then show ?case by simp
next
  case (Cons it items)
  show ?case
  proof (cases "out_variants it")
    case Nil
    then show ?thesis by (simp add: is_unknown_def)
  next
    case v: (Cons v0 vs)
    show ?thesis
    proof (cases "unknown_marker v0")
      case True
      with v Cons show ?thesis by (simp add: is_unknown_def)
    next
      case False
      with v Cons show ?thesis by (simp add: is_unknown_def split: sum.splits)
    qed
  qed
qed

lemma replace_stems_Inr:
  "replace_stems d items = Inr items' \<Longrightarrow>
   list_all2 (\<lambda>it it'. input_str it' = input_str it \<and> (is_unknown it \<longrightarrow> it' = it)) items items'"
proof (induction items arbitrary: items')
  case Nil
  then show ?case by simp
next
  case (Cons it items)
  from Cons.prems obtain v0 vs where v: "out_variants it = v0 # vs"
    by (auto split: list.splits)
  from Cons.prems v obtain it' rest where
    h: "(if unknown_marker v0 then Inr it
         else (case latin_variants d (out_variants it) of
                 Inl e \<Rightarrow> Inl e
               | Inr new_variants \<Rightarrow> Inr (it\<lparr>out_variants := new_variants\<rparr>))) = Inr it'"
    and r: "replace_stems d items = Inr rest" and eq: "items' = it' # rest"
    by (auto split: sum.splits)
  from h v have "input_str it' = input_str it \<and> (is_unknown it \<longrightarrow> it' = it)"
    by (auto simp: is_unknown_def split: if_splits sum.splits)
  with Cons.IH [OF r] eq show ?case by simp
qed

lemma make_latin_batches:
  "fst (make_latin items hfst_lookup) =
     (case gather_stems items [] of Inl e \<Rightarrow> [] | Inr d \<Rightarrow> [map fst d])"
  by (simp add: make_latin_def split: sum.splits)

lemma make_latin_Inr:
  "snd (make_latin items hfst_lookup) = Inr items' \<Longrightarrow> \<exists>d. replace_stems d items = Inr items'"
  by (auto simp: make_latin_def split: sum.splits)

text \<open>
  The third loop raises nothing after the first loop has returned: the keys it looks up
  were stored by the first loop, and the second loop removes none. An exception of the
  pass therefore leaves before any item is rewritten.
\<close>

lemma store_translits_keys: "set (map fst d) \<subseteq> set (map fst (store_translits ts d))"
proof (induction ts arbitrary: d)
  case Nil
  then show ?case by simp
next
  case (Cons t ts)
  have "set (map fst d) \<subseteq> set (map fst (AList.update (input_str t) (out_variants t) d))"
    using dom_update [of "input_str t" "out_variants t" d] by auto
  with Cons [of "AList.update (input_str t) (out_variants t) d"] show ?case by auto
qed

lemma latin_variants_total:
  "\<forall>v \<in> set vars. \<exists>s. get_stem v = Inr s \<and> s \<in> set (map fst d)
   \<Longrightarrow> \<exists>r. latin_variants d vars = Inr r"
proof (induction vars)
  case Nil
  then show ?case by simp
next
  case (Cons var vars)
  then obtain s where s: "get_stem var = Inr s" and k: "s \<in> set (map fst d)" by auto
  from k obtain lats where l: "map_of d s = Some lats"
    by (cases "map_of d s") (auto simp: map_of_eq_None_iff)
  from Cons obtain r where "latin_variants d vars = Inr r" by auto
  with s l show ?case by simp
qed

lemma replace_stems_total:
  "\<forall>it \<in> set items. out_variants it \<noteq> [] \<and>
      (\<not> is_unknown it \<longrightarrow>
         (\<forall>v \<in> set (out_variants it). \<exists>s. get_stem v = Inr s \<and> s \<in> set (map fst d)))
   \<Longrightarrow> \<exists>r. replace_stems d items = Inr r"
proof (induction items)
  case Nil
  then show ?case by simp
next
  case (Cons it items)
  then obtain v0 vs where v: "out_variants it = v0 # vs" by (cases "out_variants it") auto
  from Cons obtain r where r: "replace_stems d items = Inr r" by auto
  show ?case
  proof (cases "unknown_marker v0")
    case True
    with v r show ?thesis by simp
  next
    case False
    with v have "\<not> is_unknown it" by (simp add: is_unknown_def)
    with Cons.prems have
      "\<forall>v \<in> set (out_variants it). \<exists>s. get_stem v = Inr s \<and> s \<in> set (map fst d)"
      by simp
    from latin_variants_total [OF this] obtain nv where
      "latin_variants d (out_variants it) = Inr nv" by blast
    with v False r show ?thesis by simp
  qed
qed

lemma make_latin_Inl:
  assumes "snd (make_latin items hfst_lookup) = Inl e"
  shows "gather_stems items [] = Inl e \<or>
         (\<exists>d. gather_stems items [] = Inr d \<and> hfst_lookup (map fst d) = Inl e)"
proof (cases "gather_stems items []")
  case (Inl e')
  with assms show ?thesis by (simp add: make_latin_def)
next
  case (Inr d)
  show ?thesis
  proof (cases "hfst_lookup (map fst d)")
    case (Inl e')
    with assms Inr show ?thesis by (simp add: make_latin_def)
  next
    case ts: (Inr ts)
    note g = gather_stems_Inr [OF Inr]
    note a = conjunct1 [OF g]
    note keys = conjunct1 [OF conjunct2 [OF g]]
    have "\<forall>it \<in> set items. out_variants it \<noteq> [] \<and>
      (\<not> is_unknown it \<longrightarrow>
         (\<forall>v \<in> set (out_variants it).
            \<exists>s. get_stem v = Inr s \<and> s \<in> set (map fst (store_translits ts d))))"
    proof (intro ballI conjI impI)
      fix it
      assume it: "it \<in> set items"
      with a show "out_variants it \<noteq> []" by blast
      fix v
      assume k: "\<not> is_unknown it" and v: "v \<in> set (out_variants it)"
      with a it obtain s where s: "get_stem v = Inr s" by blast
      with it k v have "s \<in> set (map fst d)" unfolding keys by blast
      with store_translits_keys [of d ts] have "s \<in> set (map fst (store_translits ts d))"
        by blast
      with s show "\<exists>s. get_stem v = Inr s \<and> s \<in> set (map fst (store_translits ts d))"
        by blast
    qed
    from replace_stems_total [OF this] obtain r where
      "replace_stems (store_translits ts d) items = Inr r" by blast
    with assms Inr ts show ?thesis by (simp add: make_latin_def)
  qed
qed

subsection \<open>Unknown items and raising items in the scoring loop\<close>

lemma is_unknown_iff:
  "is_unknown it \<longleftrightarrow> (\<exists>u w vs. out_variants it = (u @ CHR ''*'' # w) # vs)"
proof (cases "out_variants it")
  case Nil
  then show ?thesis by (simp add: is_unknown_def)
next
  case (Cons v0 vs)
  then show ?thesis
    by (auto simp: is_unknown_def unknown_marker_def in_set_conv_decomp)
qed

lemma snd_for_each_Cons:
  "snd (for_each body (x # xs) s) =
     (case snd (body x s) of Inl e \<Rightarrow> Inl e | Inr s' \<Rightarrow> snd (for_each body xs s'))"
  by (auto split: prod.splits sum.splits)

lemma score_item_unknown:
  "is_unknown (snd z) \<Longrightarrow> snd (score_item dd funcs z st) = Inr st"
  by (cases z; cases st) (auto simp: score_item_def is_unknown_def split: list.splits)

lemma item_loop_filter:
  "snd (for_each (score_item dd funcs) zs st) =
   snd (for_each (score_item dd funcs) (filter (\<lambda>z. \<not> is_unknown (snd z)) zs) st)"
proof (induction zs arbitrary: st)
  case Nil
  then show ?case by simp
next
  case (Cons z zs)
  let ?known = "filter (\<lambda>z. \<not> is_unknown (snd z))"
  show ?case
  proof (cases "is_unknown (snd z)")
    case True
    have "snd (for_each (score_item dd funcs) (z # zs) st)
        = (case snd (score_item dd funcs z st) of
             Inl e \<Rightarrow> Inl e
           | Inr s' \<Rightarrow> snd (for_each (score_item dd funcs) zs s'))"
      by (rule snd_for_each_Cons)
    also have "\<dots> = snd (for_each (score_item dd funcs) zs st)"
      by (simp add: score_item_unknown [OF True])
    also have "\<dots> = snd (for_each (score_item dd funcs) (?known zs) st)" by (rule Cons)
    finally show ?thesis using True by simp
  next
    case False
    have "snd (for_each (score_item dd funcs) (z # zs) st)
        = (case snd (score_item dd funcs z st) of
             Inl e \<Rightarrow> Inl e
           | Inr s' \<Rightarrow> snd (for_each (score_item dd funcs) zs s'))"
      by (rule snd_for_each_Cons)
    also have "\<dots> = (case snd (score_item dd funcs z st) of
             Inl e \<Rightarrow> Inl e
           | Inr s' \<Rightarrow> snd (for_each (score_item dd funcs) (?known zs) s'))"
      by (simp add: Cons cong: sum.case_cong)
    also have "\<dots> = snd (for_each (score_item dd funcs) (z # ?known zs) st)"
      by (rule snd_for_each_Cons [symmetric])
    finally show ?thesis using False by simp
  qed
qed

lemma snd_compare:
  "length reference = length predicted \<Longrightarrow>
   snd (compare reference predicted funcs dd) =
     (case snd (for_each (score_item dd funcs) (zip reference predicted)
                  (0, map (\<lambda>k. (k, \<lparr>correct = 0, recognized_m = 0\<rparr>)) (map fst funcs))) of
        Inl e \<Rightarrow> Inl e
      | Inr st \<Rightarrow>
          (case fractional (map fst funcs) (snd st) of
             Inl e \<Rightarrow> Inl e
           | Inr a \<Rightarrow> Inr \<lparr>total = length reference, recognized = fst st, accuracy = a\<rparr>))"
  by (auto simp: compare_def split: prod.splits sum.splits)

lemma for_each_Inr_all:
  assumes "for_each body xs s = (rows, Inr s')" and "x \<in> set xs"
  shows "\<exists>t r t'. body x t = (r, Inr t')"
  using assms
proof (induction xs arbitrary: s rows)
  case Nil
  then show ?case by simp
next
  case (Cons y ys)
  from Cons.prems(1) obtain r t r' where b: "body y s = (r, Inr t)"
    and f: "for_each body ys t = (r', Inr s')"
    by (auto split: prod.splits sum.splits)
  show ?case
  proof (cases "x = y")
    case True
    with b show ?thesis by blast
  next
    case False
    with Cons.prems(2) have "x \<in> set ys" by simp
    from Cons.IH [OF f this] show ?thesis .
  qed
qed

lemma score_metric_raises:
  assumes "first_match f ref (out_variants pred) = Inl e"
  shows "score_metric dd ref pred (k, f) st \<noteq> (r, Inr t)"
  using assms by (cases st) (auto simp: score_metric_def split: sum.splits)

lemma score_item_raises:
  assumes "out_variants pred = v0 # vs" and "\<not> unknown_marker v0"
    and "match_stem ref v0 = Inl e"
  shows "score_item dd accuracy_funcs (ref, pred) st \<noteq> (r, Inr t)"
proof
  assume a: "score_item dd accuracy_funcs (ref, pred) st = (r, Inr t)"
  obtain n d where st: "st = (n, d)" by (cases st)
  from a assms(1,2) st obtain b d' where
    loop: "for_each (score_metric dd ref pred) accuracy_funcs (False, d) = (r, Inr (b, d'))"
    by (auto simp: score_item_def split: prod.splits sum.splits)
  have "(''stem_match'', match_stem) \<in> set accuracy_funcs" by (simp add: accuracy_funcs_def)
  from for_each_Inr_all [OF loop this] obtain t0 r0 t1 where
    "score_metric dd ref pred (''stem_match'', match_stem) t0 = (r0, Inr t1)" by blast
  moreover have "first_match match_stem ref (out_variants pred) = Inl e"
    using assms(1,3) by simp
  ultimately show False using score_metric_raises by blast
qed

lemma compare_raises:
  assumes "length reference = length predicted"
    and "(ref, pred) \<in> set (zip reference predicted)"
    and "out_variants pred = v0 # vs" and "\<not> unknown_marker v0"
    and "match_stem ref v0 = Inl e"
  shows "snd (compare reference predicted accuracy_funcs dd) = Inl IndexError"
proof (cases "compare reference predicted accuracy_funcs dd")
  case (Pair rows res)
  show ?thesis
  proof (cases res)
    case (Inl e')
    with Pair compare_registry_Inl [of reference predicted dd rows e'] assms(1)
    show ?thesis by simp
  next
    case (Inr result)
    with Pair assms(1) obtain st where
      "for_each (score_item dd accuracy_funcs) (zip reference predicted)
         (0, map (\<lambda>k. (k, \<lparr>correct = 0, recognized_m = 0\<rparr>)) (map fst accuracy_funcs))
       = (rows, Inr st)"
      by (auto simp: compare_def split: prod.splits sum.splits)
    from for_each_Inr_all [OF this assms(2)] score_item_raises [OF assms(3,4,5)]
    show ?thesis by blast
  qed
qed

subsection \<open>Splitting a span\<close>

lemma str_split_length: "length (str_split c s) = Suc (count_list s c)"
proof (induction s)
  case Nil
  then show ?case by simp
next
  case (Cons x xs)
  then show ?case by (cases "str_split c xs") auto
qed

lemma str_split_none: "c \<notin> set s \<Longrightarrow> str_split c s = [s]"
  by (induction s) auto

lemma str_split_first: "c \<notin> set w \<Longrightarrow> str_split c (w @ c # v) = w # str_split c v"
  by (induction w) auto

lemma unpack_item_length:
  "length (out_variants (unpack_item a)) = count_list a CHR ''/''"
  by (simp add: unpack_item_def Let_def str_split_length)

lemma count_list_0: "count_list xs x = 0 \<longleftrightarrow> x \<notin> set xs"
  by (induction xs) auto

lemma findall_single_span:
  assumes "\<forall>c \<in> set x. inner_char c" and "x \<noteq> []"
  shows "findall apertium_pattern (''^'' @ x @ ''$'') = [x]"
proof -
  have tw: "takeWhile inner_char (x @ ''$'') = x"
    using assms(1) by (simp add: takeWhile_append2 inner_char_def)
  have dw: "dropWhile inner_char (x @ ''$'') = ''$''"
    using assms(1) by (simp add: dropWhile_append2 inner_char_def)
  have "apertium_pattern (CHR ''^'' # x @ ''$'') = Some (x, length x + 2)"
    using assms(2) by (simp add: apertium_pattern_def tw dw)
  moreover have "findall_from apertium_pattern (length x + 1) (x @ ''$'') = []"
    by (subst findall_from_drop) simp
  ultimately show ?thesis by (simp add: findall_def)
qed

lemma distinct_count_list_1: "distinct xs \<Longrightarrow> x \<in> set xs \<Longrightarrow> count_list xs x = 1"
  by (induction xs) (auto simp: count_list_0)

subsection \<open>The claims\<close>

text \<open>
  C1. For every recognized item and every metric of the registry, \<^verbatim>\<open>compare\<close> is to
  log exactly one row: CORRECT if some variant satisfies the metric, FAIL if none does.
  The code does not do so: \<^verbatim>\<open>is_correct\<close> is reset once per item and not once
  per metric, so after one metric has matched no later metric of the same item logs
  FAIL. For the reference \<^verbatim>\<open>car<n><pl>\<close> and the single variant \<^verbatim>\<open>car<n><sg>\<close> no variant
  satisfies \<^verbatim>\<open>unordered_tags_match\<close>, the metric is counted as recognized and not
  correct, and no row is written for it: the log has four rows, none for that metric.
\<close>

theorem compare_drops_fail_row:
  "first_match match_unordered ''car<n><pl>'' [''car<n><sg>''] = Inr False \<and>
   compare [''car<n><pl>''] [\<lparr>input_str = ''car'', out_variants = [''car<n><sg>'']\<rparr>]
     accuracy_funcs (Some ''details'') =
   ([\<lparr>d_dir = ''details'', d_file = ''exact_match.csv'', d_wordform = ''car'',
       d_reference = ''car<n><pl>'', d_real_output = ''car<n><sg>'', d_result = ''FAIL''\<rparr>,
     \<lparr>d_dir = ''details'', d_file = ''stem_match.csv'', d_wordform = ''car'',
       d_reference = ''car<n><pl>'', d_real_output = ''car<n><sg>'', d_result = ''CORRECT''\<rparr>,
     \<lparr>d_dir = ''details'', d_file = ''pos_match.csv'', d_wordform = ''car'',
       d_reference = ''car<n><pl>'', d_real_output = ''car<n><sg>'', d_result = ''CORRECT''\<rparr>,
     \<lparr>d_dir = ''details'', d_file = ''stem_and_pos_match.csv'', d_wordform = ''car'',
       d_reference = ''car<n><pl>'', d_real_output = ''car<n><sg>'', d_result = ''CORRECT''\<rparr>],
    Inr \<lparr>total = 1, recognized = 1,
          accuracy =
            [(''exact_match'', \<lparr>correct = 0, recognized_m = 1, acc = 0\<rparr>),
             (''stem_match'', \<lparr>correct = 1, recognized_m = 1, acc = 1\<rparr>),
             (''pos_match'', \<lparr>correct = 1, recognized_m = 1, acc = 1\<rparr>),
             (''stem_and_pos_match'', \<lparr>correct = 1, recognized_m = 1, acc = 1\<rparr>),
             (''unordered_tags_match'', \<lparr>correct = 0, recognized_m = 1, acc = 0\<rparr>)]\<rparr>)"
  by code_simp

text \<open>
  C2, as the code has it. The claim that no parsed item has an empty variants list fails:
  the span \<^verbatim>\<open>^cat$\<close> has no \<^verbatim>\<open>/\<close>, and the item parsed from it has no variants.
\<close>

theorem parse_apertium_no_variants:
  "parse_apertium ''^cat$'' = [\<lparr>input_str = ''cat'', out_variants = []\<rparr>]"
  by code_simp

text \<open>
  C2, amended. The parser yields one item per span, in order, and an item has as many
  variants as its span has \<^verbatim>\<open>/\<close> characters: its variants list is non-empty if and only
  if the span contains a \<^verbatim>\<open>/\<close>. A span \<^verbatim>\<open>^w/v$\<close> without a further \<^verbatim>\<open>/\<close>, such as the
  analyzer's \<^verbatim>\<open>^w/*w$\<close> for an unrecognized input, yields exactly one variant, \<open>v\<close>.
\<close>

theorem parse_apertium_variants:
  "list_all2 (\<lambda>it a. it = unpack_item a \<and>
                length (out_variants it) = count_list a CHR ''/'' \<and>
                (out_variants it \<noteq> [] \<longleftrightarrow> CHR ''/'' \<in> set a))
     (parse_apertium stdout) (findall apertium_pattern stdout) \<and>
   ((\<forall>c \<in> set (w @ v). c \<noteq> CHR ''^'' \<and> c \<noteq> CHR ''$'' \<and> c \<noteq> CHR ''/'') \<longrightarrow>
      parse_apertium (''^'' @ w @ ''/'' @ v @ ''$'') = [\<lparr>input_str = w, out_variants = [v]\<rparr>])"
proof (intro conjI impI)
  have "out_variants (unpack_item a) \<noteq> [] \<longleftrightarrow> CHR ''/'' \<in> set a" for a
    using unpack_item_length [of a] count_list_0 [of a "CHR ''/''"] by (metis length_0_conv)
  then show "list_all2 (\<lambda>it a. it = unpack_item a \<and>
                length (out_variants it) = count_list a CHR ''/'' \<and>
                (out_variants it \<noteq> [] \<longleftrightarrow> CHR ''/'' \<in> set a))
     (parse_apertium stdout) (findall apertium_pattern stdout)"
    by (simp add: parse_apertium_def list_all2_map1 list_all2_same unpack_item_length)
next
  assume a: "\<forall>c \<in> set (w @ v). c \<noteq> CHR ''^'' \<and> c \<noteq> CHR ''$'' \<and> c \<noteq> CHR ''/''"
  let ?x = "w @ ''/'' @ v"
  have "\<forall>c \<in> set ?x. inner_char c" using a by (auto simp: inner_char_def)
  moreover have "?x \<noteq> []" by simp
  ultimately have "findall apertium_pattern (''^'' @ ?x @ ''$'') = [?x]"
    by (rule findall_single_span)
  moreover have "str_split CHR ''/'' ?x = [w, v]"
  proof -
    from a have "CHR ''/'' \<notin> set w" and "CHR ''/'' \<notin> set v" by auto
    then show ?thesis using str_split_first [of "CHR ''/''" w v] by (simp add: str_split_none)
  qed
  ultimately show "parse_apertium (''^'' @ w @ ''/'' @ v @ ''$'') = [\<lparr>input_str = w, out_variants = [v]\<rparr>]"
    by (simp add: parse_apertium_def unpack_item_def)
qed

theorem parse_apertium_variants_witness:
  "parse_apertium ''^foo/*foo$'' = [\<lparr>input_str = ''foo'', out_variants = [''*foo'']\<rparr>] \<and>
   unknown_marker ''*foo''"
proof -
  have "\<forall>c \<in> set (''foo'' @ ''*foo''). c \<noteq> CHR ''^'' \<and> c \<noteq> CHR ''$'' \<and> c \<noteq> CHR ''/''"
    by simp
  with parse_apertium_variants [of "''^foo/*foo$''" "''foo''" "''*foo''"]
  have "parse_apertium (''^'' @ ''foo'' @ ''/'' @ ''*foo'' @ ''$'')
          = [\<lparr>input_str = ''foo'', out_variants = [''*foo'']\<rparr>]"
    by blast
  then show ?thesis by (simp add: unknown_marker_def)
qed

text \<open>
  C3. \<^verbatim>\<open>compare\<close> raises its length error, before anything is logged and with no
  result, if and only if the reference and the predicted sequence differ in length.
  That differing lengths give the error holds for every registry; that the error is
  raised for no other reason is stated for the registry of the program, whose metrics
  raise nothing but \<^verbatim>\<open>IndexError\<close>. A returned result comes from sequences of equal
  length, and its \<open>total\<close> is that length: nothing is truncated or padded.
\<close>

theorem compare_length_check:
  "((\<exists>a b. snd (compare reference predicted accuracy_funcs details_dir) = Inl (RuntimeError a b))
      \<longleftrightarrow> length reference \<noteq> length predicted) \<and>
   (length reference \<noteq> length predicted \<longrightarrow>
      compare reference predicted acc_funcs details_dir =
        ([], Inl (RuntimeError (length reference) (length predicted)))) \<and>
   (\<forall>rows res. compare reference predicted acc_funcs details_dir = (rows, Inr res) \<longrightarrow>
      length reference = length predicted \<and> run_result.total res = length reference)"
proof (intro conjI allI impI iffI)
  assume "\<exists>a b. snd (compare reference predicted accuracy_funcs details_dir) = Inl (RuntimeError a b)"
  then obtain a b rows where
    "compare reference predicted accuracy_funcs details_dir = (rows, Inl (RuntimeError a b))"
    by (metis prod.collapse)
  from compare_registry_Inl [OF this] show "length reference \<noteq> length predicted" by auto
next
  assume "length reference \<noteq> length predicted"
  then show "\<exists>a b. snd (compare reference predicted accuracy_funcs details_dir) = Inl (RuntimeError a b)"
    by (simp add: compare_def)
next
  assume "length reference \<noteq> length predicted"
  then show "compare reference predicted acc_funcs details_dir =
        ([], Inl (RuntimeError (length reference) (length predicted)))"
    by (simp add: compare_def)
next
  fix rows res
  assume "compare reference predicted acc_funcs details_dir = (rows, Inr res)"
  from compare_Inr [OF this]
  show "length reference = length predicted" "run_result.total res = length reference"
    by blast+
qed

theorem compare_length_check_witness:
  "length [''a<n>'', ''b<n>''] \<noteq> length [\<lparr>input_str = ''a'', out_variants = [''a<n>'']\<rparr>] \<and>
   compare [''a<n>'', ''b<n>''] [\<lparr>input_str = ''a'', out_variants = [''a<n>'']\<rparr>]
     accuracy_funcs None = ([], Inl (RuntimeError 2 1)) \<and>
   compare [''a<n>''] [\<lparr>input_str = ''a'', out_variants = [''a<n>'']\<rparr>] accuracy_funcs None =
     ([], Inr \<lparr>total = 1, recognized = 1,
               accuracy =
                 [(''exact_match'', \<lparr>correct = 1, recognized_m = 1, acc = 1\<rparr>),
                  (''stem_match'', \<lparr>correct = 1, recognized_m = 1, acc = 1\<rparr>),
                  (''pos_match'', \<lparr>correct = 1, recognized_m = 1, acc = 1\<rparr>),
                  (''stem_and_pos_match'', \<lparr>correct = 1, recognized_m = 1, acc = 1\<rparr>),
                  (''unordered_tags_match'', \<lparr>correct = 1, recognized_m = 1, acc = 1\<rparr>)]\<rparr>) \<and>
   length [''a<n>''] = length [\<lparr>input_str = ''a'', out_variants = [''a<n>'']\<rparr>]"
proof -
  have ok: "compare [''a<n>''] [\<lparr>input_str = ''a'', out_variants = [''a<n>'']\<rparr>] accuracy_funcs None =
     ([], Inr \<lparr>total = 1, recognized = 1,
               accuracy =
                 [(''exact_match'', \<lparr>correct = 1, recognized_m = 1, acc = 1\<rparr>),
                  (''stem_match'', \<lparr>correct = 1, recognized_m = 1, acc = 1\<rparr>),
                  (''pos_match'', \<lparr>correct = 1, recognized_m = 1, acc = 1\<rparr>),
                  (''stem_and_pos_match'', \<lparr>correct = 1, recognized_m = 1, acc = 1\<rparr>),
                  (''unordered_tags_match'', \<lparr>correct = 1, recognized_m = 1, acc = 1\<rparr>)]\<rparr>)"
    by code_simp
  have ne: "length [''a<n>'', ''b<n>''] \<noteq> length [\<lparr>input_str = ''a'', out_variants = [''a<n>'']\<rparr>]"
    by simp
  from compare_length_check
         [of "[''a<n>'', ''b<n>'']" "[\<lparr>input_str = ''a'', out_variants = [''a<n>'']\<rparr>]" None
             accuracy_funcs] ne
  have "compare [''a<n>'', ''b<n>''] [\<lparr>input_str = ''a'', out_variants = [''a<n>'']\<rparr>]
     accuracy_funcs None = ([], Inl (RuntimeError 2 1))"
    by simp
  moreover from compare_length_check
         [of "[''a<n>'']" "[\<lparr>input_str = ''a'', out_variants = [''a<n>'']\<rparr>]" None accuracy_funcs] ok
  have "length [''a<n>''] = length [\<lparr>input_str = ''a'', out_variants = [''a<n>'']\<rparr>]"
    by blast
  ultimately show ?thesis using ne ok by blast
qed

text \<open>
  C4. In a result returned by \<^verbatim>\<open>compare\<close> every metric of the registry has an entry,
  and in every entry \<open>correct \<le> recognized\<close>, so the accuracy (the exact quotient) lies
  between 0 and 1, and it is 0 whenever the metric's recognized count is 0. With the
  registry of the program \<^verbatim>\<open>compare\<close> never raises a division by zero.
\<close>

theorem compare_accuracy_bounds:
  "snd (compare reference predicted accuracy_funcs details_dir) \<noteq> Inl ZeroDivisionError \<and>
   (\<forall>rows res. compare reference predicted acc_funcs details_dir = (rows, Inr res) \<longrightarrow>
      map fst (accuracy res) = map fst acc_funcs \<and>
      (\<forall>km \<in> set (accuracy res).
         correct (snd km) \<le> recognized_m (snd km) \<and>
         0 \<le> acc (snd km) \<and> acc (snd km) \<le> 1 \<and>
         (recognized_m (snd km) = 0 \<longrightarrow> acc (snd km) = 0) \<and>
         (recognized_m (snd km) \<noteq> 0 \<longrightarrow>
            acc (snd km) = of_nat (correct (snd km)) / of_nat (recognized_m (snd km)))))"
proof (intro conjI allI impI ballI)
  show "snd (compare reference predicted accuracy_funcs details_dir) \<noteq> Inl ZeroDivisionError"
  proof
    assume "snd (compare reference predicted accuracy_funcs details_dir) = Inl ZeroDivisionError"
    then obtain rows where
      "compare reference predicted accuracy_funcs details_dir = (rows, Inl ZeroDivisionError)"
      by (metis prod.collapse)
    from compare_registry_Inl [OF this] show False by simp
  qed
next
  fix rows res
  assume c: "compare reference predicted acc_funcs details_dir = (rows, Inr res)"
  from compare_Inr [OF c] show "map fst (accuracy res) = map fst acc_funcs" by blast
  fix km
  assume "km \<in> set (accuracy res)"
  with compare_Inr [OF c] have le: "correct (snd km) \<le> recognized_m (snd km)"
    and a: "acc (snd km) = (if recognized_m (snd km) = 0 then 0
                            else of_nat (correct (snd km)) / of_nat (recognized_m (snd km)))"
    by blast+
  show "correct (snd km) \<le> recognized_m (snd km)" by (rule le)
  show "0 \<le> acc (snd km)" unfolding a by simp
  show "acc (snd km) \<le> 1" unfolding a using le by (simp add: divide_le_eq_1)
  show "acc (snd km) = 0" if "recognized_m (snd km) = 0" using that a by simp
  show "acc (snd km) = of_nat (correct (snd km)) / of_nat (recognized_m (snd km))"
    if "recognized_m (snd km) \<noteq> 0" using that a by simp
qed

theorem compare_accuracy_bounds_witness:
  "compare [''car<n><pl>''] [\<lparr>input_str = ''car'', out_variants = [''car<n><sg>'']\<rparr>]
     accuracy_funcs None =
     ([], Inr \<lparr>total = 1, recognized = 1,
               accuracy =
                 [(''exact_match'', \<lparr>correct = 0, recognized_m = 1, acc = 0\<rparr>),
                  (''stem_match'', \<lparr>correct = 1, recognized_m = 1, acc = 1\<rparr>),
                  (''pos_match'', \<lparr>correct = 1, recognized_m = 1, acc = 1\<rparr>),
                  (''stem_and_pos_match'', \<lparr>correct = 1, recognized_m = 1, acc = 1\<rparr>),
                  (''unordered_tags_match'', \<lparr>correct = 0, recognized_m = 1, acc = 0\<rparr>)]\<rparr>) \<and>
   recognized_m \<lparr>correct = 1, recognized_m = 1, acc = 1\<rparr> \<noteq> 0 \<and>
   acc \<lparr>correct = 1, recognized_m = 1, acc = 1::rat\<rparr> \<le> 1 \<and>
   compare [''car<n><pl>''] [\<lparr>input_str = ''car'', out_variants = [''*car'']\<rparr>]
     [(''exact_match'', match_exact)] None =
     ([], Inr \<lparr>total = 1, recognized = 0,
               accuracy = [(''exact_match'', \<lparr>correct = 0, recognized_m = 0, acc = 0\<rparr>)]\<rparr>) \<and>
   recognized_m \<lparr>correct = 0, recognized_m = 0, acc = 0::rat\<rparr> = 0 \<and>
   acc \<lparr>correct = 0, recognized_m = 0, acc = 0::rat\<rparr> = 0"
proof -
  let ?R = "\<lparr>total = 1, recognized = 1,
               accuracy =
                 [(''exact_match'', \<lparr>correct = 0, recognized_m = 1, acc = 0\<rparr>),
                  (''stem_match'', \<lparr>correct = 1, recognized_m = 1, acc = 1\<rparr>),
                  (''pos_match'', \<lparr>correct = 1, recognized_m = 1, acc = 1\<rparr>),
                  (''stem_and_pos_match'', \<lparr>correct = 1, recognized_m = 1, acc = 1\<rparr>),
                  (''unordered_tags_match'', \<lparr>correct = 0, recognized_m = 1, acc = 0::rat\<rparr>)]\<rparr>"
  let ?Z = "\<lparr>total = 1, recognized = 0,
               accuracy = [(''exact_match'', \<lparr>correct = 0, recognized_m = 0, acc = 0::rat\<rparr>)]\<rparr>"
  have one: "compare [''car<n><pl>''] [\<lparr>input_str = ''car'', out_variants = [''car<n><sg>'']\<rparr>]
     accuracy_funcs None = ([], Inr ?R)"
    by code_simp
  have zero: "compare [''car<n><pl>''] [\<lparr>input_str = ''car'', out_variants = [''*car'']\<rparr>]
     [(''exact_match'', match_exact)] None = ([], Inr ?Z)"
    by code_simp
  from compare_accuracy_bounds
         [of "[''car<n><pl>'']" "[\<lparr>input_str = ''car'', out_variants = [''car<n><sg>'']\<rparr>]" None
             accuracy_funcs] one
  have "\<forall>km \<in> set (accuracy ?R). recognized_m (snd km) \<noteq> 0 \<longrightarrow> acc (snd km) \<le> 1"
    by blast
  then have a: "acc \<lparr>correct = 1, recognized_m = 1, acc = 1::rat\<rparr> \<le> 1" by simp
  from compare_accuracy_bounds
         [of "[''car<n><pl>'']" "[\<lparr>input_str = ''car'', out_variants = [''*car'']\<rparr>]" None
             "[(''exact_match'', match_exact)]"] zero
  have "\<forall>km \<in> set (accuracy ?Z). recognized_m (snd km) = 0 \<longrightarrow> acc (snd km) = 0"
    by blast
  then have b: "acc \<lparr>correct = 0, recognized_m = 0, acc = 0::rat\<rparr> = 0" by simp
  from one zero a b show ?thesis by simp
qed

text \<open>
  C5. In a result returned by \<^verbatim>\<open>compare\<close> on sequences of length N, \<open>total\<close> is N,
  \<open>recognized\<close> is the number of predicted items whose first variant does not contain
  the unknown marker (every item has a first variant, or \<^verbatim>\<open>compare\<close> would have
  raised), so \<open>recognized \<le> total\<close>, with equality if and only if no predicted item's
  first variant carries the marker.
\<close>

theorem compare_total_recognized:
  assumes "compare reference predicted acc_funcs details_dir = (rows, Inr res)"
  shows "run_result.total res = length reference \<and> run_result.total res = length predicted \<and>
         (\<forall>p \<in> set predicted. out_variants p \<noteq> []) \<and>
         recognized res = length (filter (\<lambda>p. CHR ''*'' \<notin> set (hd (out_variants p))) predicted) \<and>
         recognized res \<le> run_result.total res \<and>
         (recognized res = run_result.total res \<longleftrightarrow>
            (\<forall>p \<in> set predicted. CHR ''*'' \<notin> set (hd (out_variants p))))"
proof -
  from compare_Inr [OF assms] have len: "length reference = length predicted"
    and tot: "run_result.total res = length reference"
    and ne: "\<forall>p \<in> set predicted. out_variants p \<noteq> []"
    and rec: "recognized res = length (filter (\<lambda>p. \<not> is_unknown p) predicted)"
    by blast+
  have "filter (\<lambda>p. \<not> is_unknown p) predicted
      = filter (\<lambda>p. CHR ''*'' \<notin> set (hd (out_variants p))) predicted"
    using ne by (intro filter_cong) (auto simp: is_unknown_def unknown_marker_def split: list.splits)
  with rec have rec': "recognized res
      = length (filter (\<lambda>p. CHR ''*'' \<notin> set (hd (out_variants p))) predicted)"
    by simp
  from rec' have "recognized res \<le> length predicted" by simp
  moreover from rec' have "recognized res = length predicted \<longleftrightarrow>
      (\<forall>p \<in> set predicted. CHR ''*'' \<notin> set (hd (out_variants p)))"
    by (simp add: length_filter_eq_iff)
  ultimately show ?thesis using len tot ne rec' by simp
qed

theorem compare_total_recognized_witness:
  "compare [''car<n><pl>'', ''x<n>'']
     [\<lparr>input_str = ''car'', out_variants = [''*car'']\<rparr>,
      \<lparr>input_str = ''x'', out_variants = [''y<n>'', ''x<n>'']\<rparr>]
     [(''exact_match'', match_exact)] None =
     ([], Inr \<lparr>total = 2, recognized = 1,
               accuracy = [(''exact_match'', \<lparr>correct = 1, recognized_m = 1, acc = 1\<rparr>)]\<rparr>) \<and>
   length (filter (\<lambda>p. CHR ''*'' \<notin> set (hd (out_variants p)))
     [\<lparr>input_str = ''car'', out_variants = [''*car'']\<rparr>,
      \<lparr>input_str = ''x'', out_variants = [''y<n>'', ''x<n>'']\<rparr>]) = 1"
proof -
  let ?R = "\<lparr>total = 2, recognized = 1,
               accuracy = [(''exact_match'', \<lparr>correct = 1, recognized_m = 1, acc = 1::rat\<rparr>)]\<rparr>"
  have c: "compare [''car<n><pl>'', ''x<n>'']
     [\<lparr>input_str = ''car'', out_variants = [''*car'']\<rparr>,
      \<lparr>input_str = ''x'', out_variants = [''y<n>'', ''x<n>'']\<rparr>]
     [(''exact_match'', match_exact)] None = ([], Inr ?R)"
    by code_simp
  from compare_total_recognized [OF c]
  have "recognized ?R = length (filter (\<lambda>p. CHR ''*'' \<notin> set (hd (out_variants p)))
     [\<lparr>input_str = ''car'', out_variants = [''*car'']\<rparr>,
      \<lparr>input_str = ''x'', out_variants = [''y<n>'', ''x<n>'']\<rparr>])"
    by blast
  with c show ?thesis by simp
qed

text \<open>
  C6, as the code has it. The claim that the secondary transducer is invoked exactly
  once fails when the first loop raises: the second item below is not unknown and its
  second variant has no stem, so the pass raises \<^verbatim>\<open>IndexError\<close> while it gathers the
  stems, and no batch is submitted at all, although the stem \<^verbatim>\<open>cat\<close> occurs in two items.
\<close>

theorem make_latin_no_lookup:
  "make_latin
     [\<lparr>input_str = ''a'', out_variants = [''cat<n>'']\<rparr>,
      \<lparr>input_str = ''b'', out_variants = [''cat<v>'', ''dog'']\<rparr>]
     sample_lookup = ([], Inl IndexError)"
  by code_simp

text \<open>
  C6, amended. When the first loop does not raise, that is, when every item has a first
  variant and every variant of every item that is not unknown has a stem, the secondary
  transducer is invoked exactly once, on the keys of \<^verbatim>\<open>cyr2lat\<close>: a duplicate-free batch
  whose elements are exactly the stems of the variants of the items that are not
  unknown, each stem once, however many variants or items it occurs in. The answer to
  that one batch decides the pass: an exception of the lookup is the exception of the
  pass, and any answer is stored and the items are rewritten from it, without a further
  exception. When the first loop raises, the pass ends with \<^verbatim>\<open>IndexError\<close> and nothing
  is submitted.
\<close>

theorem make_latin_single_lookup:
  "((\<forall>it \<in> set items. out_variants it \<noteq> [] \<and>
       (\<not> is_unknown it \<longrightarrow> (\<forall>v \<in> set (out_variants it). \<exists>s. get_stem v = Inr s))) \<longrightarrow>
    (\<exists>cyr2lat. gather_stems items [] = Inr cyr2lat \<and>
       fst (make_latin items hfst_lookup) = [map fst cyr2lat] \<and>
       distinct (map fst cyr2lat) \<and>
       set (map fst cyr2lat) =
         {s. \<exists>it \<in> set items. \<not> is_unknown it \<and>
               (\<exists>v \<in> set (out_variants it). get_stem v = Inr s)} \<and>
       (\<forall>s \<in> set (map fst cyr2lat). count_list (map fst cyr2lat) s = 1) \<and>
       snd (make_latin items hfst_lookup) =
         (case hfst_lookup (map fst cyr2lat) of
            Inl e \<Rightarrow> Inl e
          | Inr translits \<Rightarrow> replace_stems (store_translits translits cyr2lat) items) \<and>
       (\<forall>translits. hfst_lookup (map fst cyr2lat) = Inr translits \<longrightarrow>
          (\<exists>items'. snd (make_latin items hfst_lookup) = Inr items')))) \<and>
   (\<not> (\<forall>it \<in> set items. out_variants it \<noteq> [] \<and>
       (\<not> is_unknown it \<longrightarrow> (\<forall>v \<in> set (out_variants it). \<exists>s. get_stem v = Inr s))) \<longrightarrow>
    make_latin items hfst_lookup = ([], Inl IndexError))"
proof (intro conjI impI)
  assume "\<forall>it \<in> set items. out_variants it \<noteq> [] \<and>
       (\<not> is_unknown it \<longrightarrow> (\<forall>v \<in> set (out_variants it). \<exists>s. get_stem v = Inr s))"
  from gather_stems_total [OF this] obtain d where d: "gather_stems items [] = Inr d" by blast
  from gather_stems_Inr [OF d]
  have dist: "distinct (map fst d)" and keys: "set (map fst d) =
      {s. \<exists>it \<in> set items. \<not> is_unknown it \<and> (\<exists>v \<in> set (out_variants it). get_stem v = Inr s)}"
    by simp_all
  have once: "\<forall>s \<in> set (map fst d). count_list (map fst d) s = 1"
    using dist by (blast intro: distinct_count_list_1)
  have batches: "fst (make_latin items hfst_lookup) = [map fst d]"
    using d by (simp add: make_latin_batches)
  have result: "snd (make_latin items hfst_lookup) =
         (case hfst_lookup (map fst d) of
            Inl e \<Rightarrow> Inl e
          | Inr translits \<Rightarrow> replace_stems (store_translits translits d) items)"
    using d by (simp add: make_latin_def split: sum.splits)
  have returns: "\<exists>items'. snd (make_latin items hfst_lookup) = Inr items'"
    if "hfst_lookup (map fst d) = Inr translits" for translits
  proof (cases "snd (make_latin items hfst_lookup)")
    case (Inl e)
    from make_latin_Inl [OF this] d that show ?thesis by simp
  next
    case (Inr items')
    then show ?thesis by blast
  qed
  from d batches dist keys once result returns
  show "\<exists>cyr2lat. gather_stems items [] = Inr cyr2lat \<and>
       fst (make_latin items hfst_lookup) = [map fst cyr2lat] \<and>
       distinct (map fst cyr2lat) \<and>
       set (map fst cyr2lat) =
         {s. \<exists>it \<in> set items. \<not> is_unknown it \<and>
               (\<exists>v \<in> set (out_variants it). get_stem v = Inr s)} \<and>
       (\<forall>s \<in> set (map fst cyr2lat). count_list (map fst cyr2lat) s = 1) \<and>
       snd (make_latin items hfst_lookup) =
         (case hfst_lookup (map fst cyr2lat) of
            Inl e \<Rightarrow> Inl e
          | Inr translits \<Rightarrow> replace_stems (store_translits translits cyr2lat) items) \<and>
       (\<forall>translits. hfst_lookup (map fst cyr2lat) = Inr translits \<longrightarrow>
          (\<exists>items'. snd (make_latin items hfst_lookup) = Inr items'))"
    by blast
next
  assume n: "\<not> (\<forall>it \<in> set items. out_variants it \<noteq> [] \<and>
       (\<not> is_unknown it \<longrightarrow> (\<forall>v \<in> set (out_variants it). \<exists>s. get_stem v = Inr s)))"
  show "make_latin items hfst_lookup = ([], Inl IndexError)"
  proof (cases "gather_stems items []")
    case (Inl e)
    then show ?thesis by (auto simp: make_latin_def dest: gather_stems_error)
  next
    case (Inr d)
    from gather_stems_Inr [OF Inr] n show ?thesis by blast
  qed
qed

theorem make_latin_single_lookup_witness:
  "make_latin
     [\<lparr>input_str = ''a'', out_variants = [''cat<n>'', ''dog<n>'']\<rparr>,
      \<lparr>input_str = ''b'', out_variants = [''*b'']\<rparr>,
      \<lparr>input_str = ''c'', out_variants = [''cat<v>'']\<rparr>]
     sample_lookup
   = ([[''cat'', ''dog'']],
      Inr [\<lparr>input_str = ''a'', out_variants = [''cat1<n>'', ''dog1<n>'']\<rparr>,
           \<lparr>input_str = ''b'', out_variants = [''*b'']\<rparr>,
           \<lparr>input_str = ''c'', out_variants = [''cat1<v>'']\<rparr>]) \<and>
   count_list [''cat'', ''dog''] ''cat'' = 1 \<and>
   make_latin
     [\<lparr>input_str = ''a'', out_variants = [''cat<n>'', ''dog<n>'']\<rparr>,
      \<lparr>input_str = ''b'', out_variants = [''*b'']\<rparr>,
      \<lparr>input_str = ''c'', out_variants = [''cat<v>'']\<rparr>]
     failing_lookup
   = ([[''cat'', ''dog'']], Inl (HfstException ''hfst-lookup'')) \<and>
   make_latin
     [\<lparr>input_str = ''a'', out_variants = [''cat<n>'']\<rparr>,
      \<lparr>input_str = ''b'', out_variants = [''cat<v>'', ''dog'']\<rparr>]
     failing_lookup = ([], Inl IndexError)"
proof -
  let ?items = "[\<lparr>input_str = ''a'', out_variants = [''cat<n>'', ''dog<n>'']\<rparr>,
      \<lparr>input_str = ''b'', out_variants = [''*b'']\<rparr>,
      \<lparr>input_str = ''c'', out_variants = [''cat<v>'']\<rparr>]"
  let ?bad = "[\<lparr>input_str = ''a'', out_variants = [''cat<n>'']\<rparr>,
      \<lparr>input_str = ''b'', out_variants = [''cat<v>'', ''dog'']\<rparr>]"
  have s1: "get_stem ''cat<n>'' = Inr ''cat''" by code_simp
  have s2: "get_stem ''dog<n>'' = Inr ''dog''" by code_simp
  have s3: "get_stem ''cat<v>'' = Inr ''cat''" by code_simp
  have s4: "get_stem ''dog'' = Inl IndexError" by code_simp
  have h: "\<forall>it \<in> set ?items. out_variants it \<noteq> [] \<and>
       (\<not> is_unknown it \<longrightarrow> (\<forall>v \<in> set (out_variants it). \<exists>s. get_stem v = Inr s))"
    by (simp add: s1 s2 s3 is_unknown_def unknown_marker_def)
  have n: "\<not> (\<forall>it \<in> set ?bad. out_variants it \<noteq> [] \<and>
       (\<not> is_unknown it \<longrightarrow> (\<forall>v \<in> set (out_variants it). \<exists>s. get_stem v = Inr s)))"
    by (simp add: s4 is_unknown_def unknown_marker_def)
  have g: "gather_stems ?items [] = Inr [(''cat'', []), (''dog'', [])]" by code_simp
  have e: "make_latin ?items sample_lookup
   = ([[''cat'', ''dog'']],
      Inr [\<lparr>input_str = ''a'', out_variants = [''cat1<n>'', ''dog1<n>'']\<rparr>,
           \<lparr>input_str = ''b'', out_variants = [''*b'']\<rparr>,
           \<lparr>input_str = ''c'', out_variants = [''cat1<v>'']\<rparr>])"
    by code_simp
  from make_latin_single_lookup [of ?items sample_lookup] h
  obtain d1 where d1: "gather_stems ?items [] = Inr d1"
    and o1: "\<forall>s \<in> set (map fst d1). count_list (map fst d1) s = 1"
    by blast
  from d1 g have "d1 = [(''cat'', []), (''dog'', [])]" by simp
  with o1 have c: "count_list [''cat'', ''dog''] ''cat'' = 1" by simp
  from make_latin_single_lookup [of ?items failing_lookup] h
  obtain d2 where d2: "gather_stems ?items [] = Inr d2"
    and b2: "fst (make_latin ?items failing_lookup) = [map fst d2]"
    and r2: "snd (make_latin ?items failing_lookup) =
         (case failing_lookup (map fst d2) of
            Inl e \<Rightarrow> Inl e
          | Inr translits \<Rightarrow> replace_stems (store_translits translits d2) ?items)"
    by blast
  from d2 g have "d2 = [(''cat'', []), (''dog'', [])]" by simp
  with b2 r2 have "fst (make_latin ?items failing_lookup) = [[''cat'', ''dog'']]"
    and "snd (make_latin ?items failing_lookup) = Inl (HfstException ''hfst-lookup'')"
    by (simp_all add: failing_lookup_def)
  then have f: "make_latin ?items failing_lookup
      = ([[''cat'', ''dog'']], Inl (HfstException ''hfst-lookup''))"
    by (simp add: prod_eq_iff)
  from make_latin_single_lookup [of ?bad failing_lookup] n
  have b: "make_latin ?bad failing_lookup = ([], Inl IndexError)" by blast
  from e c f b show ?thesis by blast
qed

text \<open>
  C7. Alias normalisation is idempotent: for every list of reference strings, applying
  \<^verbatim>\<open>replace_aliases\<close> with the fixed table \<^verbatim>\<open>tag_aliases\<close> twice gives the same strings
  as applying it once.
\<close>

theorem replace_aliases_idempotent:
  "replace_aliases (replace_aliases tagged) = replace_aliases tagged"
  by (simp add: replace_aliases_def alias_pass_idem)

text \<open>
  C8, as the code has it. The claim that no stem of an unknown item is in the lookup
  batch fails when a known item has the same stem: the first item below is unknown, its
  second variant has the stem \<^verbatim>\<open>cat\<close>, and \<^verbatim>\<open>cat\<close> is in the batch, on account of the
  second item.
\<close>

theorem make_latin_shared_stem:
  "is_unknown \<lparr>input_str = ''a'', out_variants = [''*a'', ''cat<n>'']\<rparr> \<and>
   get_stem ''cat<n>'' = Inr ''cat'' \<and>
   fst (make_latin
     [\<lparr>input_str = ''a'', out_variants = [''*a'', ''cat<n>'']\<rparr>,
      \<lparr>input_str = ''b'', out_variants = [''cat<n>'']\<rparr>]
     sample_lookup) = [[''cat'']]"
  by code_simp

text \<open>
  C8, amended. The transliteration pass leaves every unknown item untouched: in the
  returned list an item whose first variant contains \<^verbatim>\<open>*\<close> is the item it was, and an
  exception of the pass leaves before any item is rewritten. Such an item adds no stem
  to the lookup batch: the batch is the one that the known items alone give, and each of
  its stems is the stem of a variant of an item that is not unknown.
\<close>

theorem make_latin_skips_unknown:
  "(\<forall>items'. snd (make_latin items hfst_lookup) = Inr items' \<longrightarrow>
      length items' = length items \<and>
      (\<forall>i < length items. is_unknown (items ! i) \<longrightarrow> items' ! i = items ! i)) \<and>
   (\<forall>e. snd (make_latin items hfst_lookup) = Inl e \<longrightarrow>
      gather_stems items [] = Inl e \<or>
      (\<exists>d. gather_stems items [] = Inr d \<and> hfst_lookup (map fst d) = Inl e)) \<and>
   fst (make_latin items hfst_lookup) =
     fst (make_latin (filter (\<lambda>it. \<not> is_unknown it) items) hfst_lookup) \<and>
   (\<forall>batch \<in> set (fst (make_latin items hfst_lookup)). \<forall>s \<in> set batch.
      \<exists>it \<in> set items. \<not> is_unknown it \<and> (\<exists>v \<in> set (out_variants it). get_stem v = Inr s))"
proof (intro conjI allI impI ballI)
  fix items'
  assume "snd (make_latin items hfst_lookup) = Inr items'"
  then obtain d where "replace_stems d items = Inr items'" by (auto dest: make_latin_Inr)
  from replace_stems_Inr [OF this]
  have l: "list_all2 (\<lambda>it it'. input_str it' = input_str it \<and> (is_unknown it \<longrightarrow> it' = it))
             items items'" .
  then show "length items' = length items" by (simp add: list_all2_lengthD)
  fix i
  assume "i < length items" and "is_unknown (items ! i)"
  with l show "items' ! i = items ! i" by (auto simp: list_all2_conv_all_nth)
next
  fix e
  assume "snd (make_latin items hfst_lookup) = Inl e"
  then show "gather_stems items [] = Inl e \<or>
      (\<exists>d. gather_stems items [] = Inr d \<and> hfst_lookup (map fst d) = Inl e)"
    by (rule make_latin_Inl)
next
  show "fst (make_latin items hfst_lookup) =
     fst (make_latin (filter (\<lambda>it. \<not> is_unknown it) items) hfst_lookup)"
    unfolding make_latin_batches by (simp add: gather_stems_filter [of items])
next
  fix batch s
  assume b: "batch \<in> set (fst (make_latin items hfst_lookup))" and s: "s \<in> set batch"
  from b obtain d where d: "gather_stems items [] = Inr d" and "batch = map fst d"
    by (cases "gather_stems items []") (simp_all add: make_latin_batches)
  with gather_stems_Inr [OF d] s
  show "\<exists>it \<in> set items. \<not> is_unknown it \<and> (\<exists>v \<in> set (out_variants it). get_stem v = Inr s)"
    by auto
qed

theorem make_latin_skips_unknown_witness:
  "make_latin
     [\<lparr>input_str = ''a'', out_variants = [''cat<n>'']\<rparr>,
      \<lparr>input_str = ''b'', out_variants = [''*b'']\<rparr>]
     sample_lookup
   = ([[''cat'']],
      Inr [\<lparr>input_str = ''a'', out_variants = [''cat1<n>'']\<rparr>,
           \<lparr>input_str = ''b'', out_variants = [''*b'']\<rparr>]) \<and>
   is_unknown \<lparr>input_str = ''b'', out_variants = [''*b'']\<rparr> \<and>
   [\<lparr>input_str = ''a'', out_variants = [''cat1<n>'']\<rparr>,
    \<lparr>input_str = ''b'', out_variants = [''*b'']\<rparr>] ! 1 =
   [\<lparr>input_str = ''a'', out_variants = [''cat<n>'']\<rparr>,
    \<lparr>input_str = ''b'', out_variants = [''*b'']\<rparr>] ! 1"
proof -
  let ?items = "[\<lparr>input_str = ''a'', out_variants = [''cat<n>'']\<rparr>,
      \<lparr>input_str = ''b'', out_variants = [''*b'']\<rparr>]"
  let ?items' = "[\<lparr>input_str = ''a'', out_variants = [''cat1<n>'']\<rparr>,
           \<lparr>input_str = ''b'', out_variants = [''*b'']\<rparr>]"
  let ?lk = sample_lookup
  have e: "make_latin ?items ?lk = ([[''cat'']], Inr ?items')" by code_simp
  have u: "is_unknown (?items ! 1)" by (simp add: is_unknown_def unknown_marker_def)
  from make_latin_skips_unknown [of ?items ?lk] e
  have "\<forall>i < length ?items. is_unknown (?items ! i) \<longrightarrow> ?items' ! i = ?items ! i"
    by simp
  then have "is_unknown (?items ! 1) \<longrightarrow> ?items' ! 1 = ?items ! 1" by simp
  with u e show ?thesis by simp
qed

text \<open>
  C9. Stem extraction is partial. If no \<^verbatim>\<open><\<close> of an analysis string is preceded by a
  character other than \<^verbatim>\<open><\<close> and \<^verbatim>\<open>>\<close> (a bare wordform without tags, for one), then
  \<^verbatim>\<open>get_stem\<close> raises \<^verbatim>\<open>IndexError\<close>, and so do the four metrics that extract a stem
  or a part of speech, with the string as either argument. \<^verbatim>\<open>compare\<close> with the
  registry of the program raises as soon as a recognized item has such a reference or
  such a first variant, and the transliteration pass raises, before any lookup, as soon
  as an item that is not unknown has such a variant.
\<close>

theorem get_stem_partial:
  assumes "\<forall>u a v. tagged = u @ a # CHR ''<'' # v \<longrightarrow> a = CHR ''<'' \<or> a = CHR ''>''"
  shows "get_stem tagged = Inl IndexError \<and>
     match_stem tagged t = Inl IndexError \<and> match_stem t tagged = Inl IndexError \<and>
     match_pos tagged t = Inl IndexError \<and> match_pos t tagged = Inl IndexError \<and>
     match_stem_and_pos tagged t = Inl IndexError \<and>
     match_stem_and_pos t tagged = Inl IndexError \<and>
     match_unordered tagged t = Inl IndexError \<and> match_unordered t tagged = Inl IndexError \<and>
     (\<forall>reference predicted ref pred v0 vs details_dir.
        length reference = length predicted \<longrightarrow>
        (ref, pred) \<in> set (zip reference predicted) \<longrightarrow>
        out_variants pred = v0 # vs \<longrightarrow> \<not> unknown_marker v0 \<longrightarrow>
        (ref = tagged \<or> v0 = tagged) \<longrightarrow>
        snd (compare reference predicted accuracy_funcs details_dir) = Inl IndexError) \<and>
     (\<forall>items it hfst_lookup.
        it \<in> set items \<longrightarrow> \<not> is_unknown it \<longrightarrow> tagged \<in> set (out_variants it) \<longrightarrow>
        make_latin items hfst_lookup = ([], Inl IndexError))"
proof -
  have nd: "\<And>u a v. tagged = u @ a # CHR ''<'' # v \<Longrightarrow> \<not> nondelim a"
    using assms by (auto simp: nondelim_def)
  have g: "get_stem tagged = Inl IndexError" by (rule get_stem_stemless [OF nd])
  have p: "index0 (findall pos_pattern tagged) = Inl IndexError" by (rule pos_stemless [OF nd])
  have s1: "match_stem tagged x = Inl IndexError" for x by (simp add: match_stem_def g)
  have s2: "match_stem x tagged = Inl IndexError" for x
    by (auto simp: match_stem_def g dest: get_stem_error split: sum.splits)
  have p1: "match_pos tagged x = Inl IndexError" for x by (simp add: match_pos_def p)
  have p2: "match_pos x tagged = Inl IndexError" for x
    by (auto simp: match_pos_def p dest: index0_error split: sum.splits)
  have c: "snd (compare reference predicted accuracy_funcs dd) = Inl IndexError"
    if "length reference = length predicted" "(ref, pred) \<in> set (zip reference predicted)"
      "out_variants pred = v0 # vs" "\<not> unknown_marker v0" "ref = tagged \<or> v0 = tagged"
    for reference predicted ref pred v0 vs dd
  proof -
    from that(5) have "match_stem ref v0 = Inl IndexError" using s1 s2 by auto
    from compare_raises [OF that(1-4) this] show ?thesis .
  qed
  have m: "make_latin items lk = ([], Inl IndexError)"
    if "it \<in> set items" "\<not> is_unknown it" "tagged \<in> set (out_variants it)" for items it lk
  proof (cases "gather_stems items []")
    case (Inl e)
    then show ?thesis by (auto simp: make_latin_def dest: gather_stems_error)
  next
    case (Inr d)
    from gather_stems_Inr [OF Inr] that have "\<exists>s. get_stem tagged = Inr s" by blast
    with g show ?thesis by simp
  qed
  show ?thesis
    using g s1 s2 p1 p2 c m
    by (simp add: match_stem_and_pos_def match_unordered_def Let_def)
qed

theorem get_stem_partial_witness:
  "get_stem ''cat'' = Inl IndexError \<and>
   match_pos ''cat'' ''cat<n>'' = Inl IndexError \<and>
   match_unordered ''cat<n>'' ''cat'' = Inl IndexError \<and>
   snd (compare [''cat''] [\<lparr>input_str = ''cat'', out_variants = [''cat<n>'']\<rparr>]
          accuracy_funcs None) = Inl IndexError \<and>
   make_latin [\<lparr>input_str = ''cat'', out_variants = [''cat'']\<rparr>] sample_lookup
     = ([], Inl IndexError)"
proof -
  have h: "\<forall>u a v. ''cat'' = u @ a # CHR ''<'' # v \<longrightarrow> a = CHR ''<'' \<or> a = CHR ''>''"
  proof (intro allI impI)
    fix u a v
    assume eq: "''cat'' = u @ a # CHR ''<'' # v"
    have "CHR ''<'' \<in> set (u @ a # CHR ''<'' # v)" by simp
    with eq have "CHR ''<'' \<in> set ''cat''" by metis
    then show "a = CHR ''<'' \<or> a = CHR ''>''" by simp
  qed
  let ?p = "\<lparr>input_str = ''cat'', out_variants = [''cat<n>'']\<rparr>"
  let ?q = "\<lparr>input_str = ''cat'', out_variants = [''cat'']\<rparr>"
  note w = get_stem_partial [of "''cat''" "''cat<n>''", OF h]
  from w have 1: "get_stem ''cat'' = Inl IndexError"
    and 2: "match_pos ''cat'' ''cat<n>'' = Inl IndexError"
    and 3: "match_unordered ''cat<n>'' ''cat'' = Inl IndexError"
    by blast+
  from w have "length [''cat''] = length [?p] \<longrightarrow>
        (''cat'', ?p) \<in> set (zip [''cat''] [?p]) \<longrightarrow>
        out_variants ?p = [''cat<n>''] \<longrightarrow> \<not> unknown_marker ''cat<n>'' \<longrightarrow>
        (''cat'' = ''cat'' \<or> ''cat<n>'' = ''cat'') \<longrightarrow>
        snd (compare [''cat''] [?p] accuracy_funcs None) = Inl IndexError"
    by blast
  then have 4: "snd (compare [''cat''] [?p] accuracy_funcs None) = Inl IndexError"
    by (simp add: unknown_marker_def)
  from w have "?q \<in> set [?q] \<longrightarrow> \<not> is_unknown ?q \<longrightarrow> ''cat'' \<in> set (out_variants ?q) \<longrightarrow>
        make_latin [?q] sample_lookup = ([], Inl IndexError)"
    by blast
  then have 5: "make_latin [?q] sample_lookup = ([], Inl IndexError)"
    by (simp add: is_unknown_def unknown_marker_def)
  from 1 2 3 4 5 show ?thesis by blast
qed

text \<open>
  C10. An item is unknown exactly when \<^verbatim>\<open>*\<close> occurs somewhere in its first variant,
  also inside an otherwise valid analysis. \<^verbatim>\<open>compare\<close> steps over such an item with an
  UNKNOWN row and no change to any count: the recognized count, every metric's entry and
  the exception raised, if any, are those of the run on the known items alone, and the
  recognized count is the number of known items. \<^verbatim>\<open>make_latin\<close> skips it in both
  loops: it adds nothing to the stems gathered and keeps its variants.
\<close>

theorem unknown_items_excluded:
  "(is_unknown it \<longleftrightarrow> (\<exists>u w vs. out_variants it = (u @ CHR ''*'' # w) # vs)) \<and>
   (length reference = length predicted \<longrightarrow>
      map_sum id (\<lambda>r. (recognized r, accuracy r))
        (snd (compare reference predicted acc_funcs details_dir)) =
      map_sum id (\<lambda>r. (recognized r, accuracy r))
        (snd (compare
           (map fst (filter (\<lambda>z. \<not> is_unknown (snd z)) (zip reference predicted)))
           (map snd (filter (\<lambda>z. \<not> is_unknown (snd z)) (zip reference predicted)))
           acc_funcs details_dir))) \<and>
   (\<forall>rows res. compare reference predicted acc_funcs details_dir = (rows, Inr res) \<longrightarrow>
      recognized res = length (filter (\<lambda>p. \<not> is_unknown p) predicted)) \<and>
   (\<forall>n d. is_unknown pred \<longrightarrow>
      score_item details_dir acc_funcs (ref, pred) (n, d) =
        (log_details details_dir ''unknown'' (input_str pred) ref (variants pred) ''UNKNOWN'',
         Inr (n, d))) \<and>
   gather_stems items cyr2lat = gather_stems (filter (\<lambda>it. \<not> is_unknown it) items) cyr2lat \<and>
   (\<forall>items'. snd (make_latin items hfst_lookup) = Inr items' \<longrightarrow>
      (\<forall>i < length items. is_unknown (items ! i) \<longrightarrow>
         out_variants (items' ! i) = out_variants (items ! i)))"
proof (intro conjI allI impI)
  show "is_unknown it \<longleftrightarrow> (\<exists>u w vs. out_variants it = (u @ CHR ''*'' # w) # vs)"
    by (rule is_unknown_iff)
next
  let ?known = "filter (\<lambda>z. \<not> is_unknown (snd z)) (zip reference predicted)"
  assume len: "length reference = length predicted"
  have z: "zip (map fst ?known) (map snd ?known) = ?known" by (rule zip_map_fst_snd)
  have l: "length (map fst ?known) = length (map snd ?known)" by simp
  show "map_sum id (\<lambda>r. (recognized r, accuracy r))
        (snd (compare reference predicted acc_funcs details_dir)) =
      map_sum id (\<lambda>r. (recognized r, accuracy r))
        (snd (compare (map fst ?known) (map snd ?known) acc_funcs details_dir))"
    unfolding snd_compare [OF len] snd_compare [OF l] z
    by (simp add: item_loop_filter [of details_dir acc_funcs "zip reference predicted"]
             split: sum.splits)
next
  fix rows res
  assume "compare reference predicted acc_funcs details_dir = (rows, Inr res)"
  from compare_Inr [OF this]
  show "recognized res = length (filter (\<lambda>p. \<not> is_unknown p) predicted)" by blast
next
  fix n d
  assume "is_unknown pred"
  then show "score_item details_dir acc_funcs (ref, pred) (n, d) =
        (log_details details_dir ''unknown'' (input_str pred) ref (variants pred) ''UNKNOWN'',
         Inr (n, d))"
    by (auto simp: score_item_def is_unknown_def split: list.splits)
next
  show "gather_stems items cyr2lat = gather_stems (filter (\<lambda>it. \<not> is_unknown it) items) cyr2lat"
    by (rule gather_stems_filter)
next
  fix items' i
  assume "snd (make_latin items hfst_lookup) = Inr items'"
  then obtain d where "replace_stems d items = Inr items'" by (auto dest: make_latin_Inr)
  from replace_stems_Inr [OF this]
  have l: "list_all2 (\<lambda>it it'. input_str it' = input_str it \<and> (is_unknown it \<longrightarrow> it' = it))
             items items'" .
  assume "i < length items" and "is_unknown (items ! i)"
  with l show "out_variants (items' ! i) = out_variants (items ! i)"
    by (auto simp: list_all2_conv_all_nth)
qed

theorem unknown_items_excluded_witness:
  "is_unknown \<lparr>input_str = ''cat'', out_variants = [''ca*t<n>'']\<rparr> \<and>
   length [''cat<n>'', ''dog<n>''] =
     length [\<lparr>input_str = ''cat'', out_variants = [''ca*t<n>'']\<rparr>,
             \<lparr>input_str = ''dog'', out_variants = [''dog<n>'']\<rparr>] \<and>
   map_sum id (\<lambda>r. (recognized r, accuracy r))
     (snd (compare [''cat<n>'', ''dog<n>'']
             [\<lparr>input_str = ''cat'', out_variants = [''ca*t<n>'']\<rparr>,
              \<lparr>input_str = ''dog'', out_variants = [''dog<n>'']\<rparr>]
             [(''exact_match'', match_exact), (''stem_match'', match_stem)] None)) =
   Inr (1, [(''exact_match'', \<lparr>correct = 1, recognized_m = 1, acc = 1\<rparr>),
            (''stem_match'', \<lparr>correct = 1, recognized_m = 1, acc = 1\<rparr>)])"
proof -
  let ?c = "\<lparr>input_str = ''cat'', out_variants = [''ca*t<n>'']\<rparr>"
  let ?d = "\<lparr>input_str = ''dog'', out_variants = [''dog<n>'']\<rparr>"
  let ?f = "[(''exact_match'', match_exact), (''stem_match'', match_stem)]"
  have u: "is_unknown ?c"
    using unknown_items_excluded [where it = ?c]
    by (simp add: is_unknown_def unknown_marker_def)
  have k: "\<not> is_unknown ?d" by (simp add: is_unknown_def unknown_marker_def)
  have len: "length [''cat<n>'', ''dog<n>''] = length [?c, ?d]" by simp
  have e: "snd (compare [''dog<n>''] [?d] ?f None)
      = Inr \<lparr>total = 1, recognized = 1,
             accuracy = [(''exact_match'', \<lparr>correct = 1, recognized_m = 1, acc = 1\<rparr>),
                         (''stem_match'', \<lparr>correct = 1, recognized_m = 1, acc = 1\<rparr>)]\<rparr>"
    by code_simp
  from unknown_items_excluded
         [where reference = "[''cat<n>'', ''dog<n>'']" and predicted = "[?c, ?d]"
            and acc_funcs = ?f and details_dir = None] len
  have "map_sum id (\<lambda>r. (recognized r, accuracy r))
          (snd (compare [''cat<n>'', ''dog<n>''] [?c, ?d] ?f None)) =
        map_sum id (\<lambda>r. (recognized r, accuracy r))
          (snd (compare
             (map fst (filter (\<lambda>z. \<not> is_unknown (snd z)) (zip [''cat<n>'', ''dog<n>''] [?c, ?d])))
             (map snd (filter (\<lambda>z. \<not> is_unknown (snd z)) (zip [''cat<n>'', ''dog<n>''] [?c, ?d])))
             ?f None))"
    by blast
  also have "\<dots> = map_sum id (\<lambda>r. (recognized r, accuracy r)) (snd (compare [''dog<n>''] [?d] ?f None))"
    using u k by simp
  also have "\<dots> = Inr (1, [(''exact_match'', \<lparr>correct = 1, recognized_m = 1, acc = 1\<rparr>),
            (''stem_match'', \<lparr>correct = 1, recognized_m = 1, acc = 1\<rparr>)])"
    by (simp add: e)
  finally show ?thesis using u len by blast
qed

end
